theory Spec2Isabelle
  imports Complex_Main
begin

section \<open>Python values\<close>

text \<open>
  Python integers are unbounded and are modelled by \<open>int\<close>. Python floats are modelled
  by \<open>real\<close>: every arithmetic operation is taken exactly, so rounding, infinities and
  not-a-number values are outside the model. A dictionary is an association list in
  iteration order; its keys are meant to be distinct.
\<close>

datatype py_error = ZeroDivisionError | KeyError | IndexError

type_synonym 'a result = "py_error + 'a"

text \<open>\<open>round(x)\<close> on a float: to the nearest integer, ties to the even one.\<close>

definition py_round :: "real \<Rightarrow> int" where
  "py_round x =
     (let f = \<lfloor>x\<rfloor>; d = x - of_int f
      in if d < 1/2 then f else if 1/2 < d then f + 1 else if even f then f else f + 1)"

text \<open>\<open>int(x)\<close> on a float: truncation towards zero.\<close>

definition py_int :: "real \<Rightarrow> int" where
  "py_int x = (if 0 \<le> x then \<lfloor>x\<rfloor> else \<lceil>x\<rceil>)"

section \<open>Data model\<close>

type_synonym product = string

text \<open>One side of a book, \<open>price \<rightarrow> quantity\<close>, as \<open>dict.items()\<close> lists it.\<close>

type_synonym book_side = "(int \<times> int) list"

record order_depth =
  buy_orders :: book_side
  sell_orders :: book_side

datatype order = Order (symbol: product) (price: int) (quantity: int)

text \<open>\<open>max(d.keys())\<close> and \<open>min(d.keys())\<close> of a non-empty dictionary.\<close>

definition max_key :: "book_side \<Rightarrow> int" where
  "max_key d = Max (set (map fst d))"

definition min_key :: "book_side \<Rightarrow> int" where
  "min_key d = Min (set (map fst d))"

text \<open>\<open>max(d.keys()) if d else 0\<close> and its counterpart for the asks.\<close>

definition best_bid_or_0 :: "order_depth \<Rightarrow> int" where
  "best_bid_or_0 od = (if buy_orders od \<noteq> [] then max_key (buy_orders od) else 0)"

definition best_ask_or_0 :: "order_depth \<Rightarrow> int" where
  "best_ask_or_0 od = (if sell_orders od \<noteq> [] then min_key (sell_orders od) else 0)"

text \<open>\<open>sum(abs(amt) for amt in d.values())\<close>.\<close>

definition abs_volume :: "book_side \<Rightarrow> int" where
  "abs_volume d = sum_list (map (\<lambda>(p, amt). \<bar>amt\<bar>) d)"

section \<open>Volume-weighted average price (run.py, Run2.0.py)\<close>

text \<open>
  The two loops of \<open>calculate_vwap\<close> thread the pair \<open>(total_value, total_volume)\<close>.
  The loop over the bids adds the quantity as it is; the loop over the asks adds its
  absolute value.
\<close>

definition vwap_buy_loop :: "book_side \<Rightarrow> int \<times> int \<Rightarrow> int \<times> int" where
  "vwap_buy_loop d acc =
     fold (\<lambda>(p, volume) (total_value, total_volume).
             (total_value + p * volume, total_volume + volume)) d acc"

definition vwap_sell_loop :: "book_side \<Rightarrow> int \<times> int \<Rightarrow> int \<times> int" where
  "vwap_sell_loop d acc =
     fold (\<lambda>(p, volume) (total_value, total_volume).
             (total_value + p * \<bar>volume\<bar>, total_volume + \<bar>volume\<bar>)) d acc"

definition calculate_vwap :: "order_depth \<Rightarrow> real" where
  "calculate_vwap od =
     (case vwap_sell_loop (sell_orders od) (vwap_buy_loop (buy_orders od) (0, 0)) of
        (total_value, total_volume) \<Rightarrow>
          if total_volume \<noteq> 0 then of_int total_value / of_int total_volume else 0)"

text \<open>The quantities the specification names: over every level of both sides.\<close>

definition weighted_value :: "book_side \<Rightarrow> int" where
  "weighted_value d = sum_list (map (\<lambda>(p, q). p * \<bar>q\<bar>) d)"

definition bids_nonneg :: "order_depth \<Rightarrow> bool" where
  "bids_nonneg od = list_all (\<lambda>(p, q). 0 \<le> q) (buy_orders od)"

section \<open>History tracking (run.py, Run2.0.py)\<close>

text \<open>
  \<open>historical_data[product]\<close>, \<open>volatility[product]\<close> and
  \<open>spread_thresholds[product]\<close> are created together by
  \<open>initialize_product_state\<close> and are kept here in one record per product.
\<close>

record product_state =
  prices :: "real list"
  spreads :: "int list"
  volumes :: "int list"
  volatility :: real
  spread_threshold :: int

definition initialize_product_state :: product_state where
  "initialize_product_state =
     \<lparr>prices = [], spreads = [], volumes = [], volatility = 1/10, spread_threshold = 2\<rparr>"

text \<open>\<open>np.diff\<close>, \<open>np.mean\<close> and \<open>np.std\<close> (the population deviation).\<close>

definition np_diff :: "real list \<Rightarrow> real list" where
  "np_diff xs = map (\<lambda>(a, b). b - a) (zip xs (tl xs))"

definition np_mean :: "real list \<Rightarrow> real" where
  "np_mean xs = sum_list xs / real (length xs)"

definition np_std :: "real list \<Rightarrow> real" where
  "np_std xs = sqrt (np_mean (map (\<lambda>x. (x - np_mean xs)\<^sup>2) xs))"

text \<open>
  The body of the loop of \<open>update_historical_data\<close> for one product, once its
  state exists. An integer is true when it is not zero, so a best price of 0 counts as
  a missing side.
\<close>

definition update_product :: "order_depth \<Rightarrow> product_state \<Rightarrow> product_state" where
  "update_product od s =
     (let best_bid = best_bid_or_0 od;
          best_ask = best_ask_or_0 od;
          s1 = (if best_bid \<noteq> 0 \<and> best_ask \<noteq> 0
                then let mid_price = (of_int best_bid + of_int best_ask) / 2;
                         s' = s\<lparr>prices := prices s @ [mid_price],
                                spreads := spreads s @ [best_ask - best_bid]\<rparr>
                     in if 1 < length (prices s')
                        then s'\<lparr>volatility := np_std (np_diff (map ln (prices s'))) * sqrt 252\<rparr>
                        else s'
                else s);
          total_volume = abs_volume (buy_orders od) + abs_volume (sell_orders od)
      in s1\<lparr>volumes := volumes s1 @ [total_volume]\<rparr>)"

definition state_of :: "(product \<rightharpoonup> product_state) \<Rightarrow> product \<Rightarrow> product_state" where
  "state_of hist p = (case hist p of None \<Rightarrow> initialize_product_state | Some s \<Rightarrow> s)"

definition update_historical_data ::
  "(product \<times> order_depth) list \<Rightarrow> (product \<rightharpoonup> product_state) \<Rightarrow> (product \<rightharpoonup> product_state)" where
  "update_historical_data order_depths hist =
     fold (\<lambda>(p, od) h. h(p \<mapsto> update_product od (state_of h p))) order_depths hist"

section \<open>Order generation (run.py)\<close>

text \<open>\<open>d[k]\<close>: the value stored under a key, or \<open>KeyError\<close>.\<close>

definition dict_get :: "book_side \<Rightarrow> int \<Rightarrow> int result" where
  "dict_get d k = (case map_of d k of None \<Rightarrow> Inl KeyError | Some v \<Rightarrow> Inr v)"

text \<open>
  The size adjustment of the market-making block:
  \<open>if position_ratio > t: buy_size = max(1, buy_size // 2)\<close>,
  \<open>elif position_ratio < -t: sell_size = max(1, sell_size // 2)\<close>.
\<close>

definition throttle :: "real \<Rightarrow> real \<Rightarrow> int \<times> int \<Rightarrow> int \<times> int" where
  "throttle t position_ratio sizes =
     (case sizes of (buy_size, sell_size) \<Rightarrow>
        if t < position_ratio then (max 1 (buy_size div 2), sell_size)
        else if position_ratio < - t then (buy_size, max 1 (sell_size div 2))
        else (buy_size, sell_size))"

text \<open>
  The quoted prices, \<open>min(round(fair_value - adj), best_bid + 1)\<close> and
  \<open>max(round(fair_value + adj), best_ask - 1)\<close>, and the market-making block of
  \<open>generate_orders\<close>, entered when more than five mid-prices are stored. \<open>avg_spread\<close> and \<open>spread\<close> are computed by the source
  and never read, so they are left out. The division \<open>current_position / position_limit\<close>
  raises on a limit of zero.
\<close>

definition quote_prices :: "real \<Rightarrow> real \<Rightarrow> int \<Rightarrow> int \<Rightarrow> int \<times> int" where
  "quote_prices fair_value price_adjustment best_bid best_ask =
     (min (py_round (fair_value - price_adjustment)) (best_bid + 1),
      max (py_round (fair_value + price_adjustment)) (best_ask - 1))"

definition market_making ::
  "product \<Rightarrow> int \<Rightarrow> int \<Rightarrow> real \<Rightarrow> int \<Rightarrow> int \<Rightarrow> product_state \<Rightarrow> order list result" where
  "market_making product best_bid best_ask fair_value current_position position_limit s =
     (let max_buy = position_limit - current_position;
          max_sell = position_limit + current_position;
          price_adjustment = volatility s * (5/10)
      in case quote_prices fair_value price_adjustment best_bid best_ask of
           (my_bid, my_ask) \<Rightarrow>
             if position_limit = 0 then Inl ZeroDivisionError
             else
               let position_ratio = of_int current_position / of_int position_limit
               in case throttle (5/10) position_ratio (min 5 max_buy, min 5 max_sell) of
                    (buy_size, sell_size) \<Rightarrow>
                      Inr ((if 0 < max_buy then [Order product my_bid buy_size] else []) @
                           (if 0 < max_sell then [Order product my_ask (- sell_size)] else [])))"

text \<open>The two liquidity-taking orders, with the band \<open>eps\<close> around the fair value.\<close>

definition arbitrage ::
  "real \<Rightarrow> product \<Rightarrow> order_depth \<Rightarrow> int \<Rightarrow> int \<Rightarrow> real \<Rightarrow> int \<Rightarrow> int \<Rightarrow> order list result" where
  "arbitrage eps product od best_bid best_ask fair_value current_position position_limit =
     (let max_buy = position_limit - current_position;
          max_sell = position_limit + current_position
      in case (if of_int best_ask < fair_value * (1 - eps) \<and> 0 < max_buy
               then case dict_get (sell_orders od) best_ask of
                      Inl e \<Rightarrow> Inl e
                    | Inr v \<Rightarrow> Inr [Order product best_ask (min (- v) max_buy)]
               else Inr []) of
           Inl e \<Rightarrow> Inl e
         | Inr buys \<Rightarrow>
             (if fair_value * (1 + eps) < of_int best_bid \<and> 0 < max_sell
              then case dict_get (buy_orders od) best_bid of
                     Inl e \<Rightarrow> Inl e
                   | Inr v \<Rightarrow> Inr (buys @ [Order product best_bid (- min v max_sell)])
              else Inr buys))"

definition generate_orders ::
  "product \<Rightarrow> order_depth \<Rightarrow> real \<Rightarrow> int \<Rightarrow> int \<Rightarrow> product_state \<Rightarrow> order list result" where
  "generate_orders product od fair_value current_position position_limit s =
     (let best_bid = best_bid_or_0 od;
          best_ask = best_ask_or_0 od
      in if best_bid = 0 \<or> best_ask = 0 then Inr []
         else case (if 5 < length (prices s)
                    then market_making product best_bid best_ask fair_value
                           current_position position_limit s
                    else Inr []) of
                Inl e \<Rightarrow> Inl e
              | Inr quotes \<Rightarrow>
                  (case arbitrage (1/1000) product od best_bid best_ask fair_value
                          current_position position_limit of
                     Inl e \<Rightarrow> Inl e
                   | Inr takes \<Rightarrow> Inr (quotes @ takes)))"

section \<open>Order generation (Run2.0.py)\<close>

text \<open>
  \<open>base_size = min(10, max(2, int(10 / (1 + volatility * 10))))\<close>; the division
  raises when its divisor is zero.
\<close>

definition base_size :: "real \<Rightarrow> int result" where
  "base_size vol =
     (if 1 + vol * 10 = 0 then Inl ZeroDivisionError
      else Inr (min 10 (max 2 (py_int (10 / (1 + vol * 10))))))"

definition market_making2 ::
  "product \<Rightarrow> int \<Rightarrow> int \<Rightarrow> real \<Rightarrow> int \<Rightarrow> int \<Rightarrow> product_state \<Rightarrow> order list result" where
  "market_making2 product best_bid best_ask fair_value current_position position_limit s =
     (let max_buy = position_limit - current_position;
          max_sell = position_limit + current_position;
          price_adjustment = volatility s * (7/10)
      in if volumes s = [] then Inl IndexError
         else
           case quote_prices fair_value
                  (if 100 < last (volumes s) then price_adjustment * (8/10) else price_adjustment)
                  best_bid best_ask of
             (my_bid, my_ask) \<Rightarrow>
               (case base_size (volatility s) of
                  Inl e \<Rightarrow> Inl e
                | Inr base \<Rightarrow>
                    if position_limit = 0 then Inl ZeroDivisionError
                    else
                      let position_ratio = of_int current_position / of_int position_limit
                      in case throttle (6/10) position_ratio
                                (min base max_buy, min base max_sell) of
                           (buy_size, sell_size) \<Rightarrow>
                             Inr ((if 0 < max_buy \<and> 0 < my_bid
                                   then [Order product my_bid buy_size] else []) @
                                  (if 0 < max_sell \<and> 0 < my_ask
                                   then [Order product my_ask (- sell_size)] else []))))"

definition generate_orders2 ::
  "product \<Rightarrow> order_depth \<Rightarrow> real \<Rightarrow> int \<Rightarrow> int \<Rightarrow> product_state \<Rightarrow> order list result" where
  "generate_orders2 product od fair_value current_position position_limit s =
     (let best_bid = best_bid_or_0 od;
          best_ask = best_ask_or_0 od
      in if best_bid = 0 \<or> best_ask = 0 then Inr []
         else case (if 5 < length (prices s)
                    then market_making2 product best_bid best_ask fair_value
                           current_position position_limit s
                    else Inr []) of
                Inl e \<Rightarrow> Inl e
              | Inr quotes \<Rightarrow>
                  (case arbitrage (3/1000) product od best_bid best_ask fair_value
                          current_position position_limit of
                     Inl e \<Rightarrow> Inl e
                   | Inr takes \<Rightarrow> Inr (quotes @ takes)))"

text \<open>
  The sign convention the source relies on when it writes
  \<open>-order_depth.sell_orders[best_ask]\<close>: bid quantities are not negative, ask
  quantities are not positive.
\<close>

definition book_signed :: "order_depth \<Rightarrow> bool" where
  "book_signed od =
     (list_all (\<lambda>(p, q). 0 \<le> q) (buy_orders od) \<and> list_all (\<lambda>(p, q). q \<le> 0) (sell_orders od))"

text \<open>Whether one order respects the remaining capacity on its side.\<close>

definition within_capacity :: "int \<Rightarrow> int \<Rightarrow> order \<Rightarrow> bool" where
  "within_capacity current_position position_limit ord =
     (- (position_limit + current_position) \<le> quantity ord \<and>
      quantity ord \<le> position_limit - current_position)"

text \<open>The position after every order of a list has filled in full.\<close>

definition filled_position :: "int \<Rightarrow> order list \<Rightarrow> int" where
  "filled_position current_position ords = current_position + sum_list (map quantity ords)"

section \<open>Fair values (run.py, Run2.0.py)\<close>

text \<open>
  \<open>np.linspace(a, b, n)\<close>, \<open>weights /= weights.sum()\<close> and \<open>np.dot\<close> on two
  vectors of the same length.
\<close>

definition np_linspace :: "real \<Rightarrow> real \<Rightarrow> nat \<Rightarrow> real list" where
  "np_linspace a b n =
     (if n = 1 then [a] else map (\<lambda>i. a + (b - a) * real i / real (n - 1)) [0..<n])"

definition normalize :: "real list \<Rightarrow> real list" where
  "normalize ws = map (\<lambda>w. w / sum_list ws) ws"

definition np_dot :: "real list \<Rightarrow> real list \<Rightarrow> real" where
  "np_dot xs ws = sum_list (map (\<lambda>(x, w). x * w) (zip xs ws))"

text \<open>run.py: the weights are exponential for every length of the history.\<close>

definition bananas_weights :: "nat \<Rightarrow> real list" where
  "bananas_weights n = normalize (map exp (np_linspace 0 1 n))"

definition calculate_bananas_fair_value :: "real list \<Rightarrow> order_depth \<Rightarrow> real" where
  "calculate_bananas_fair_value ps od =
     (if ps = [] then calculate_vwap od else np_dot ps (bananas_weights (length ps)))"

text \<open>Run2.0.py: \<open>np.ones\<close> below five observations, a steeper exponential from five on.\<close>

definition bananas_weights2 :: "nat \<Rightarrow> real list" where
  "bananas_weights2 n =
     normalize (if n < 5 then replicate n 1 else map exp (np_linspace 0 2 n))"

definition calculate_bananas_fair_value2 :: "real list \<Rightarrow> order_depth \<Rightarrow> real" where
  "calculate_bananas_fair_value2 ps od =
     (if ps = [] then calculate_vwap od else np_dot ps (bananas_weights2 (length ps)))"





text \<open>
  \<open>generate_basket_arbitrage_orders\<close>: both branches of each comparison are
  \<open>pass\<close>, so every path hands back the dictionary it started with.
\<close>

definition generate_basket_arbitrage_orders :: "(product \<rightharpoonup> real) \<Rightarrow> (product \<rightharpoonup> order list)" where
  "generate_basket_arbitrage_orders fv =
     (let orders = Map.empty;
          orders1 =
            (case (fv ''PICNIC_BASKET1'', fv ''CROISSANT'', fv ''JAM'', fv ''DJEMBE'') of
               (Some basket1_value, Some c, Some j, Some d) \<Rightarrow>
                 (let components_value = 6 * c + 3 * j + d
                  in if components_value * (1005/1000) < basket1_value then orders
                     else if basket1_value < components_value * (995/1000) then orders
                     else orders)
             | _ \<Rightarrow> orders)
      in case (fv ''PICNIC_BASKET2'', fv ''CROISSANT'', fv ''JAM'') of
           (Some basket2_value, Some c, Some j) \<Rightarrow>
             (let components_value = 4 * c + 2 * j
              in if components_value * (1005/1000) < basket2_value then orders1
                 else if basket2_value < components_value * (995/1000) then orders1
                 else orders1)
         | _ \<Rightarrow> orders1)"

text \<open>
  The merge at the end of \<open>run\<close>: the orders of the detector are appended to the list
  of their product, or become its list.
\<close>

definition merge_orders ::
  "(product \<rightharpoonup> order list) \<Rightarrow> (product \<rightharpoonup> order list) \<Rightarrow> (product \<rightharpoonup> order list)" where
  "merge_orders result extra =
     (\<lambda>p. case extra p of
             None \<Rightarrow> result p
           | Some os \<Rightarrow> (case result p of None \<Rightarrow> Some os | Some rs \<Rightarrow> Some (rs @ os)))"

section \<open>Price log (Run7.py)\<close>

text \<open>\<open>history.get(product, [])\<close> and the slice \<open>xs[-n:]\<close> of a list longer than \<open>n\<close>.\<close>

definition history_of :: "(product \<rightharpoonup> real list) \<Rightarrow> product \<Rightarrow> real list" where
  "history_of history product = (case history product of None \<Rightarrow> [] | Some h \<Rightarrow> h)"

definition keep_last :: "nat \<Rightarrow> 'a list \<Rightarrow> 'a list" where
  "keep_last n xs = drop (length xs - n) xs"

definition log_price :: "(product \<rightharpoonup> real list) \<Rightarrow> product \<Rightarrow> real \<Rightarrow> (product \<rightharpoonup> real list)" where
  "log_price history product pr =
     (let h = history_of history product @ [pr]
      in history(product \<mapsto> (if 300 < length h then keep_last 300 h else h)))"

text \<open>One product's prices logged one after the other.\<close>

definition log_prices :: "product \<Rightarrow> real list \<Rightarrow> (product \<rightharpoonup> real list) \<Rightarrow> (product \<rightharpoonup> real list)" where
  "log_prices product xs history = fold (\<lambda>x h. log_price h product x) xs history"

section \<open>Voucher fair values (run3.py, run5.py, Run6.py, Run7.py)\<close>

text \<open>
  The decay factors as functions of the remaining time, in periods of a horizon of 7:
  the floored ratio of run3.py, the exponential of run5.py and Run6.py, and the power
  of Run7.py.
\<close>

definition linear_floor_decay :: "real \<Rightarrow> real" where
  "linear_floor_decay time_left = max (2/10) (time_left / 7)"

definition exponential_decay :: "real \<Rightarrow> real" where
  "exponential_decay time_to_expiry = exp (- (15/10) * (1 - time_to_expiry / 7))"

definition power_decay :: "real \<Rightarrow> real" where
  "power_decay tte = (tte / 7) powr (15/10)"

text \<open>run3.py: \<open>time_left = 7 - int(timestamp / 100000)\<close> and the fair value of a voucher.\<close>

definition time_left3 :: "int \<Rightarrow> int" where
  "time_left3 ts = 7 - py_int (of_int ts / 100000)"

definition voucher_fair_value3 :: "real \<Rightarrow> int \<Rightarrow> int \<Rightarrow> real" where
  "voucher_fair_value3 rock_price strike time_left =
     (let expected_value = max 0 (rock_price - of_int strike);
          time_decay_factor = max (2/10) (of_int time_left / 7)
      in expected_value * time_decay_factor)"

text \<open>run5.py and Run6.py: \<open>time_to_expiry = max(0.1, 7 - timestamp / 100_000)\<close>.\<close>

definition time_to_expiry5 :: "int \<Rightarrow> real" where
  "time_to_expiry5 ts = max (1/10) (7 - of_int ts / 100000)"

definition decay_factor5 :: "int \<Rightarrow> real" where
  "decay_factor5 ts = exp (- (15/10) * (1 - time_to_expiry5 ts / 7))"

definition fair_price5 :: "real \<Rightarrow> int \<Rightarrow> real \<Rightarrow> real" where
  "fair_price5 rock_mid_price strike decay_factor =
     (let intrinsic_value = max 0 (rock_mid_price - of_int strike)
      in intrinsic_value * decay_factor)"

text \<open>
  Run7.py: \<open>days_left = max(1, 7 - int(timestamp / 100000))\<close> and
  \<open>calculate_fair_value\<close>, which adds a fixed premium of 5. The power is taken of a
  ratio that is not negative, as \<open>run\<close> passes it.
\<close>

definition days_left7 :: "int \<Rightarrow> int" where
  "days_left7 ts = max 1 (7 - py_int (of_int ts / 100000))"

definition calculate_fair_value :: "real \<Rightarrow> int \<Rightarrow> int \<Rightarrow> real" where
  "calculate_fair_value spot strike tte =
     (let intrinsic = max 0 (spot - of_int strike);
          time_value = (of_int tte / 7) powr (15/10)
      in intrinsic * time_value + 5)"

section \<open>Level walking (run5.py, Run6.py)\<close>

text \<open>
  The loops walk the levels of one side in price order and thread the simulated
  position \<open>pos\<close> together with the orders collected so far. A level is a pair of the
  sorted \<open>items()\<close>, which for distinct keys is what the lookup by key returns.
  The first equation with a true test is the \<open>break\<close>.
\<close>

fun buy_loop5 :: "product \<Rightarrow> real \<Rightarrow> int \<Rightarrow> book_side \<Rightarrow> int \<times> order list \<Rightarrow> int \<times> order list" where
  "buy_loop5 voucher fair_price lmt [] acc = acc"
| "buy_loop5 voucher fair_price lmt ((ask_price, q) # rest) (cur, ords) =
     (if fair_price - 15/10 \<le> of_int ask_price \<or> lmt \<le> cur then (cur, ords)
      else let ask_volume = - q;
               volume = min (lmt - cur) ask_volume
           in if 0 < volume
              then buy_loop5 voucher fair_price lmt rest
                     (cur + volume, ords @ [Order voucher ask_price volume])
              else buy_loop5 voucher fair_price lmt rest (cur, ords))"

fun sell_loop5 :: "product \<Rightarrow> real \<Rightarrow> int \<Rightarrow> book_side \<Rightarrow> int \<times> order list \<Rightarrow> int \<times> order list" where
  "sell_loop5 voucher fair_price lmt [] acc = acc"
| "sell_loop5 voucher fair_price lmt ((bid_price, q) # rest) (cur, ords) =
     (if of_int bid_price \<le> fair_price + 15/10 \<or> cur \<le> - lmt then (cur, ords)
      else let bid_volume = q;
               volume = min (lmt + cur) bid_volume
           in if 0 < volume
              then sell_loop5 voucher fair_price lmt rest
                     (cur - volume, ords @ [Order voucher bid_price (- volume)])
              else sell_loop5 voucher fair_price lmt rest (cur, ords))"

text \<open>Run6.py tests the position first and breaks on strict comparisons.\<close>

fun buy_loop6 :: "product \<Rightarrow> real \<Rightarrow> int \<Rightarrow> book_side \<Rightarrow> int \<times> order list \<Rightarrow> int \<times> order list" where
  "buy_loop6 voucher fair_price lmt [] acc = acc"
| "buy_loop6 voucher fair_price lmt ((ask, q) # rest) (cur, ords) =
     (if lmt \<le> cur then (cur, ords)
      else if fair_price - 15/10 < of_int ask then (cur, ords)
      else let volume = min (- q) (lmt - cur)
           in if 0 < volume
              then buy_loop6 voucher fair_price lmt rest
                     (cur + volume, ords @ [Order voucher ask volume])
              else buy_loop6 voucher fair_price lmt rest (cur, ords))"

fun sell_loop6 :: "product \<Rightarrow> real \<Rightarrow> int \<Rightarrow> book_side \<Rightarrow> int \<times> order list \<Rightarrow> int \<times> order list" where
  "sell_loop6 voucher fair_price lmt [] acc = acc"
| "sell_loop6 voucher fair_price lmt ((bid, q) # rest) (cur, ords) =
     (if cur \<le> - lmt then (cur, ords)
      else if of_int bid < fair_price + 15/10 then (cur, ords)
      else let volume = min q (lmt + cur)
           in if 0 < volume
              then sell_loop6 voucher fair_price lmt rest
                     (cur - volume, ords @ [Order voucher bid (- volume)])
              else sell_loop6 voucher fair_price lmt rest (cur, ords))"

text \<open>\<open>sorted(d.keys())\<close> and \<open>sorted(d.keys(), reverse=True)\<close>, with the quantities.\<close>

definition ascending :: "book_side \<Rightarrow> book_side" where
  "ascending d = sort_key fst d"

definition descending :: "book_side \<Rightarrow> book_side" where
  "descending d = rev (sort_key fst d)"

text \<open>The orders of one voucher: the buy loop, then the sell loop on its result.\<close>

definition voucher_orders5 :: "product \<Rightarrow> real \<Rightarrow> int \<Rightarrow> int \<Rightarrow> order_depth \<Rightarrow> order list" where
  "voucher_orders5 voucher fair_price lmt cur depth =
     snd (sell_loop5 voucher fair_price lmt (descending (buy_orders depth))
            (buy_loop5 voucher fair_price lmt (ascending (sell_orders depth)) (cur, [])))"

definition voucher_orders6 :: "product \<Rightarrow> real \<Rightarrow> int \<Rightarrow> int \<Rightarrow> order_depth \<Rightarrow> order list" where
  "voucher_orders6 voucher fair_price lmt cur depth =
     snd (sell_loop6 voucher fair_price lmt (descending (buy_orders depth))
            (buy_loop6 voucher fair_price lmt (ascending (sell_orders depth)) (cur, [])))"

text \<open>The state of a tick, the strikes and the limits of the vouchers.\<close>

record trading_state =
  timestamp :: int
  order_depths :: "(product \<times> order_depth) list"
  position :: "product \<rightharpoonup> int"

definition vouchers :: "(product \<times> int) list" where
  "vouchers =
     [(''VOLCANIC_ROCK_VOUCHER_9500'', 9500), (''VOLCANIC_ROCK_VOUCHER_9750'', 9750),
      (''VOLCANIC_ROCK_VOUCHER_10000'', 10000), (''VOLCANIC_ROCK_VOUCHER_10250'', 10250),
      (''VOLCANIC_ROCK_VOUCHER_10500'', 10500)]"

definition position_limits5 :: "(product \<times> int) list" where
  "position_limits5 =
     [(''VOLCANIC_ROCK'', 400), (''VOLCANIC_ROCK_VOUCHER_9500'', 200),
      (''VOLCANIC_ROCK_VOUCHER_9750'', 200), (''VOLCANIC_ROCK_VOUCHER_10000'', 200),
      (''VOLCANIC_ROCK_VOUCHER_10250'', 200), (''VOLCANIC_ROCK_VOUCHER_10500'', 200)]"

text \<open>\<open>state.position.get(voucher, 0)\<close>.\<close>

definition position_of :: "trading_state \<Rightarrow> product \<Rightarrow> int" where
  "position_of st p = (case position st p of None \<Rightarrow> 0 | Some q \<Rightarrow> q)"

text \<open>
  The mid-price of the rock, when its book is there with both sides; run5.py returns
  no orders otherwise.
\<close>

definition rock_mid_price5 :: "trading_state \<Rightarrow> real option" where
  "rock_mid_price5 st =
     (case map_of (order_depths st) ''VOLCANIC_ROCK'' of
        None \<Rightarrow> None
      | Some rock_depth \<Rightarrow>
          if buy_orders rock_depth = [] \<or> sell_orders rock_depth = [] then None
          else Some ((of_int (max_key (buy_orders rock_depth)) +
                      of_int (min_key (sell_orders rock_depth))) / 2))"

text \<open>
  The loop over the vouchers of run5.py; \<open>self.position_limits[voucher]\<close> raises for a
  voucher without a limit.
\<close>

fun process_vouchers5 ::
  "trading_state \<Rightarrow> real \<Rightarrow> real \<Rightarrow> (product \<times> int) list \<Rightarrow> (product \<rightharpoonup> order list) \<Rightarrow>
   (product \<rightharpoonup> order list) result" where
  "process_vouchers5 st rock_mid decay [] orders = Inr orders"
| "process_vouchers5 st rock_mid decay ((voucher, strike) # rest) orders =
     (case map_of (order_depths st) voucher of
        None \<Rightarrow> process_vouchers5 st rock_mid decay rest orders
      | Some depth \<Rightarrow>
          (case map_of position_limits5 voucher of
             None \<Rightarrow> Inl KeyError
           | Some lmt \<Rightarrow>
               let product_orders =
                     voucher_orders5 voucher (fair_price5 rock_mid strike decay) lmt
                       (position_of st voucher) depth
               in process_vouchers5 st rock_mid decay rest
                    (if product_orders \<noteq> [] then orders(voucher \<mapsto> product_orders)
                     else orders)))"

definition run5 :: "trading_state \<Rightarrow> (product \<rightharpoonup> order list) result" where
  "run5 st =
     (case rock_mid_price5 st of
        None \<Rightarrow> Inr Map.empty
      | Some rock_mid \<Rightarrow>
          process_vouchers5 st rock_mid (decay_factor5 (timestamp st)) vouchers Map.empty)"

text \<open>
  Run6.py values the vouchers only when the mid-price of the rock is true, that is
  when it exists and is not zero; its conversions for the macarons are left out.
\<close>

fun process_vouchers6 ::
  "trading_state \<Rightarrow> real \<Rightarrow> real \<Rightarrow> (product \<times> int) list \<Rightarrow> (product \<rightharpoonup> order list) \<Rightarrow>
   (product \<rightharpoonup> order list) result" where
  "process_vouchers6 st rock_mid decay [] orders = Inr orders"
| "process_vouchers6 st rock_mid decay ((voucher, strike) # rest) orders =
     (case map_of (order_depths st) voucher of
        None \<Rightarrow> process_vouchers6 st rock_mid decay rest orders
      | Some depth \<Rightarrow>
          (case map_of position_limits5 voucher of
             None \<Rightarrow> Inl KeyError
           | Some lmt \<Rightarrow>
               let product_orders =
                     voucher_orders6 voucher (fair_price5 rock_mid strike decay) lmt
                       (position_of st voucher) depth
               in process_vouchers6 st rock_mid decay rest
                    (if product_orders \<noteq> [] then orders(voucher \<mapsto> product_orders)
                     else orders)))"

definition run6 :: "trading_state \<Rightarrow> (product \<rightharpoonup> order list) result" where
  "run6 st =
     (case rock_mid_price5 st of
        None \<Rightarrow> Inr Map.empty
      | Some rock_mid \<Rightarrow>
          if rock_mid = 0 then Inr Map.empty
          else process_vouchers6 st rock_mid (decay_factor5 (timestamp st)) vouchers Map.empty)"

text \<open>
  Whether the position stays within the limit after each order of a list in turn:
  before the first one, and after every prefix has filled in full.
\<close>

fun walk_within :: "int \<Rightarrow> int \<Rightarrow> order list \<Rightarrow> bool" where
  "walk_within cur lmt [] = (- lmt \<le> cur \<and> cur \<le> lmt)"
| "walk_within cur lmt (x # xs) =
     (- lmt \<le> cur \<and> cur \<le> lmt \<and> walk_within (cur + quantity x) lmt xs)"

text \<open>The invariant of the four loops: the walk so far is within the limit.\<close>

definition walked :: "int \<Rightarrow> int \<Rightarrow> int \<times> order list \<Rightarrow> bool" where
  "walked c0 l acc = (walk_within c0 l (snd acc) \<and> fst acc = c0 + sum_list (map quantity (snd acc)))"

section \<open>Properties\<close>

subsection \<open>Volume-weighted average price\<close>

lemma vwap_buy_loop_sums:
  "list_all (\<lambda>(p, q). 0 \<le> q) d \<Longrightarrow>
   vwap_buy_loop d (tv, tvol) = (tv + weighted_value d, tvol + abs_volume d)"
  unfolding vwap_buy_loop_def weighted_value_def abs_volume_def
  by (induction d arbitrary: tv tvol) (auto simp: algebra_simps)

lemma vwap_sell_loop_sums:
  "vwap_sell_loop d (tv, tvol) = (tv + weighted_value d, tvol + abs_volume d)"
  unfolding vwap_sell_loop_def weighted_value_def abs_volume_def
  by (induction d arbitrary: tv tvol) (auto simp: algebra_simps)

lemma weighted_value_append:
  "weighted_value (a @ b) = weighted_value a + weighted_value b"
  by (simp add: weighted_value_def)

lemma abs_volume_append: "abs_volume (a @ b) = abs_volume a + abs_volume b"
  by (simp add: abs_volume_def)

text \<open>
  C3. On a snapshot whose bid quantities are not negative, \<open>calculate_vwap\<close> returns
  the sum of price times absolute quantity over the sum of absolute quantities, both
  taken over all bid and ask levels, and 0 when that total volume is zero.
\<close>

theorem calculate_vwap_weighted_average:
  assumes "bids_nonneg od"
  shows "calculate_vwap od =
           (if abs_volume (buy_orders od @ sell_orders od) = 0 then 0
            else of_int (weighted_value (buy_orders od @ sell_orders od)) /
                 of_int (abs_volume (buy_orders od @ sell_orders od)))"
  using assms
  by (simp add: calculate_vwap_def bids_nonneg_def vwap_buy_loop_sums vwap_sell_loop_sums
      weighted_value_append abs_volume_append)

theorem calculate_vwap_example:
  "bids_nonneg \<lparr>buy_orders = [(10, 5), (9, 3)], sell_orders = [(11, 4)]\<rparr> \<and>
   calculate_vwap \<lparr>buy_orders = [(10, 5), (9, 3)], sell_orders = [(11, 4)]\<rparr> = 121 / 12"
proof -
  have h: "bids_nonneg \<lparr>buy_orders = [(10, 5), (9, 3)], sell_orders = [(11, 4)]\<rparr>"
    by (simp add: bids_nonneg_def)
  show ?thesis
    using h calculate_vwap_weighted_average [OF h]
    by (simp add: weighted_value_def abs_volume_def)
qed

subsection \<open>Dictionaries and best prices\<close>

lemma dict_get_mem: "dict_get d k = Inr v \<Longrightarrow> (k, v) \<in> set d"
  by (auto simp: dict_get_def split: option.splits dest: map_of_SomeD)

lemma dict_get_key: "k \<in> fst ` set d \<Longrightarrow> \<exists>v. dict_get d k = Inr v"
  by (cases "map_of d k") (auto simp: dict_get_def map_of_eq_None_iff image_iff)

lemma min_key_mem: "d \<noteq> [] \<Longrightarrow> min_key d \<in> fst ` set d"
  unfolding min_key_def using Min_in [of "set (map fst d)"] by simp

lemma max_key_mem: "d \<noteq> [] \<Longrightarrow> max_key d \<in> fst ` set d"
  unfolding max_key_def using Max_in [of "set (map fst d)"] by simp

lemma py_round_of_int: "py_round (of_int n) = n"
  by (simp add: py_round_def)

subsection \<open>Capacity of single orders\<close>

lemma throttle_buy_bounds:
  assumes "throttle t r (min b mb, min b ms) = (bs, ss)" "1 \<le> b" "0 < mb"
  shows "1 \<le> bs \<and> bs \<le> mb"
  using assms by (auto simp: throttle_def split: if_splits)

lemma throttle_sell_bounds:
  assumes "throttle t r (min b mb, min b ms) = (bs, ss)" "1 \<le> b" "0 < ms"
  shows "1 \<le> ss \<and> ss \<le> ms"
  using assms by (auto simp: throttle_def split: if_splits)

lemma quotes_mem:
  assumes "ord \<in> set ((if a then [Order p x bq] else []) @ (if b then [Order p y sq] else []))"
  shows "(a \<and> quantity ord = bq) \<or> (b \<and> quantity ord = sq)"
  using assms by (cases a; cases b) auto

lemma market_making_limit: "market_making p bb ba fv cur lmt s = Inr qs \<Longrightarrow> lmt \<noteq> 0"
  by (auto simp: market_making_def Let_def split: prod.splits)

text \<open>The market-making block, once the quoted prices and the adjusted sizes are named.\<close>

lemma market_making_eq:
  assumes "lmt \<noteq> 0"
    and "quote_prices fv (volatility s * (5/10)) bb ba = (x, y)"
    and "throttle (5/10) (of_int cur / of_int lmt) (min 5 (lmt - cur), min 5 (lmt + cur)) = (bs, ss)"
  shows "market_making p bb ba fv cur lmt s =
           Inr ((if 0 < lmt - cur then [Order p x bs] else []) @
                (if 0 < lmt + cur then [Order p y (- ss)] else []))"
  unfolding market_making_def Let_def
  by (simp only: assms if_False prod.case)

lemma market_making_capacity:
  assumes "0 \<le> lmt - cur" "0 \<le> lmt + cur"
    and "market_making p bb ba fv cur lmt s = Inr os" and "ord \<in> set os"
  shows "within_capacity cur lmt ord"
proof -
  obtain x y where q: "quote_prices fv (volatility s * (5/10)) bb ba = (x, y)"
    by (cases "quote_prices fv (volatility s * (5/10)) bb ba")
  obtain bs ss where
    t: "throttle (5/10) (of_int cur / of_int lmt) (min 5 (lmt - cur), min 5 (lmt + cur)) = (bs, ss)"
    by (cases "throttle (5/10) (of_int cur / of_int lmt) (min 5 (lmt - cur), min 5 (lmt + cur))")
  have b: "0 < lmt - cur \<Longrightarrow> 1 \<le> bs \<and> bs \<le> lmt - cur"
    using throttle_buy_bounds [OF t] by simp
  have s: "0 < lmt + cur \<Longrightarrow> 1 \<le> ss \<and> ss \<le> lmt + cur"
    using throttle_sell_bounds [OF t] by simp
  from assms(3) market_making_eq [OF market_making_limit [OF assms(3)] q t]
  have "os = (if 0 < lmt - cur then [Order p x bs] else []) @
             (if 0 < lmt + cur then [Order p y (- ss)] else [])"
    by simp
  with assms(4)
  have "(0 < lmt - cur \<and> quantity ord = bs) \<or> (0 < lmt + cur \<and> quantity ord = - ss)"
    using quotes_mem by blast
  with b s assms(1,2) show ?thesis
    unfolding within_capacity_def by linarith
qed

lemma base_size_range: "base_size v = Inr b \<Longrightarrow> 2 \<le> b \<and> b \<le> 10"
  by (auto simp: base_size_def split: if_splits)

lemma market_making2_limit:
  "market_making2 p bb ba fv cur lmt s = Inr qs \<Longrightarrow>
   lmt \<noteq> 0 \<and> volumes s \<noteq> [] \<and> (\<exists>base. base_size (volatility s) = Inr base)"
  by (cases "base_size (volatility s)")
    (auto simp: market_making2_def Let_def split: prod.splits if_splits)

lemma market_making2_eq:
  assumes "lmt \<noteq> 0" "volumes s \<noteq> []" "base_size (volatility s) = Inr base"
    and "quote_prices fv (if 100 < last (volumes s) then volatility s * (7/10) * (8/10)
                          else volatility s * (7/10)) bb ba = (x, y)"
    and "throttle (6/10) (of_int cur / of_int lmt)
           (min base (lmt - cur), min base (lmt + cur)) = (bs, ss)"
  shows "market_making2 p bb ba fv cur lmt s =
           Inr ((if 0 < lmt - cur \<and> 0 < x then [Order p x bs] else []) @
                (if 0 < lmt + cur \<and> 0 < y then [Order p y (- ss)] else []))"
  unfolding market_making2_def Let_def
  by (simp only: assms if_False prod.case sum.case)

lemma market_making2_capacity:
  assumes "0 \<le> lmt - cur" "0 \<le> lmt + cur"
    and "market_making2 p bb ba fv cur lmt s = Inr os" and "ord \<in> set os"
  shows "within_capacity cur lmt ord"
proof -
  from market_making2_limit [OF assms(3)] obtain base where
    l: "lmt \<noteq> 0" "volumes s \<noteq> []" "base_size (volatility s) = Inr base"
    by blast
  have b1: "1 \<le> base" using base_size_range [OF l(3)] by simp
  obtain x y where
    q: "quote_prices fv (if 100 < last (volumes s) then volatility s * (7/10) * (8/10)
                         else volatility s * (7/10)) bb ba = (x, y)"
    by (cases "quote_prices fv (if 100 < last (volumes s) then volatility s * (7/10) * (8/10)
                                else volatility s * (7/10)) bb ba")
  obtain bs ss where
    t: "throttle (6/10) (of_int cur / of_int lmt)
          (min base (lmt - cur), min base (lmt + cur)) = (bs, ss)"
    by (cases "throttle (6/10) (of_int cur / of_int lmt)
                 (min base (lmt - cur), min base (lmt + cur))")
  have b: "0 < lmt - cur \<Longrightarrow> 1 \<le> bs \<and> bs \<le> lmt - cur"
    using throttle_buy_bounds [OF t b1] by simp
  have s: "0 < lmt + cur \<Longrightarrow> 1 \<le> ss \<and> ss \<le> lmt + cur"
    using throttle_sell_bounds [OF t b1] by simp
  from assms(3) market_making2_eq [OF l q t]
  have "os = (if 0 < lmt - cur \<and> 0 < x then [Order p x bs] else []) @
             (if 0 < lmt + cur \<and> 0 < y then [Order p y (- ss)] else [])"
    by simp
  with assms(4)
  have "(0 < lmt - cur \<and> quantity ord = bs) \<or> (0 < lmt + cur \<and> quantity ord = - ss)"
    using quotes_mem by blast
  with b s assms(1,2) show ?thesis
    unfolding within_capacity_def by linarith
qed

lemma arbitrage_capacity:
  assumes "0 \<le> lmt - cur" "0 \<le> lmt + cur" "book_signed od"
    and "arbitrage eps p od bb ba fv cur lmt = Inr os" and "ord \<in> set os"
  shows "within_capacity cur lmt ord"
proof -
  have s: "\<And>v. dict_get (sell_orders od) ba = Inr v \<Longrightarrow> v \<le> 0"
    using assms(3) by (auto simp: book_signed_def list_all_iff dest!: dict_get_mem)
  have b: "\<And>v. dict_get (buy_orders od) bb = Inr v \<Longrightarrow> 0 \<le> v"
    using assms(3) by (auto simp: book_signed_def list_all_iff dest!: dict_get_mem)
  from assms(4,5) have
    "(\<exists>v. dict_get (sell_orders od) ba = Inr v \<and> 0 < lmt - cur \<and>
          quantity ord = min (- v) (lmt - cur)) \<or>
     (\<exists>v. dict_get (buy_orders od) bb = Inr v \<and> 0 < lmt + cur \<and>
          quantity ord = - min v (lmt + cur))"
    by (auto simp: arbitrage_def Let_def split: if_splits sum.splits)
  then show ?thesis
    using assms(1,2) s b by (auto simp: within_capacity_def)
qed

lemma generate_orders_parts:
  assumes "generate_orders p od fv cur lmt s = Inr os" "ord \<in> set os"
  shows "(\<exists>qs. market_making p (best_bid_or_0 od) (best_ask_or_0 od) fv cur lmt s = Inr qs \<and>
              ord \<in> set qs) \<or>
         (\<exists>ts. arbitrage (1/1000) p od (best_bid_or_0 od) (best_ask_or_0 od) fv cur lmt = Inr ts \<and>
              ord \<in> set ts)"
  using assms
  by (auto simp: generate_orders_def Let_def split: if_splits sum.splits)

lemma generate_orders2_parts:
  assumes "generate_orders2 p od fv cur lmt s = Inr os" "ord \<in> set os"
  shows "(\<exists>qs. market_making2 p (best_bid_or_0 od) (best_ask_or_0 od) fv cur lmt s = Inr qs \<and>
              ord \<in> set qs) \<or>
         (\<exists>ts. arbitrage (3/1000) p od (best_bid_or_0 od) (best_ask_or_0 od) fv cur lmt = Inr ts \<and>
              ord \<in> set ts)"
  using assms
  by (auto simp: generate_orders2_def Let_def split: if_splits sum.splits)

lemma within_capacity_abs: "within_capacity cur lmt ord \<Longrightarrow> \<bar>cur + quantity ord\<bar> \<le> lmt"
  by (auto simp: within_capacity_def)

lemma arbitrage_returns:
  assumes "bb \<in> fst ` set (buy_orders od)" "ba \<in> fst ` set (sell_orders od)"
  shows "\<exists>ts. arbitrage eps p od bb ba fv cur lmt = Inr ts"
proof -
  from dict_get_key [OF assms(1)] obtain v where v: "dict_get (buy_orders od) bb = Inr v" ..
  from dict_get_key [OF assms(2)] obtain w where w: "dict_get (sell_orders od) ba = Inr w" ..
  show ?thesis by (simp add: arbitrage_def Let_def v w)
qed

lemma market_making_returns: "lmt \<noteq> 0 \<Longrightarrow> \<exists>qs. market_making p bb ba fv cur lmt s = Inr qs"
  by (simp add: market_making_def Let_def split: prod.splits)


lemma generate_orders_returns:
  assumes "lmt \<noteq> 0"
  shows "\<exists>os. generate_orders p od fv cur lmt s = Inr os"
proof (cases "best_bid_or_0 od = 0 \<or> best_ask_or_0 od = 0")
  case True
  then show ?thesis by (auto simp: generate_orders_def Let_def)
next
  case False
  then have ne: "buy_orders od \<noteq> []" "sell_orders od \<noteq> []"
    by (auto simp: best_bid_or_0_def best_ask_or_0_def split: if_splits)
  then have k: "best_bid_or_0 od \<in> fst ` set (buy_orders od)"
    "best_ask_or_0 od \<in> fst ` set (sell_orders od)"
    using max_key_mem [of "buy_orders od"] min_key_mem [of "sell_orders od"]
    by (simp_all add: best_bid_or_0_def best_ask_or_0_def)
  from arbitrage_returns [OF k] obtain ts where
    ts: "arbitrage (1/1000) p od (best_bid_or_0 od) (best_ask_or_0 od) fv cur lmt = Inr ts"
    by blast
  from market_making_returns [OF assms] obtain qs where
    qs: "market_making p (best_bid_or_0 od) (best_ask_or_0 od) fv cur lmt s = Inr qs"
    by blast
  show ?thesis using False ts qs by (simp add: generate_orders_def Let_def)
qed

text \<open>
  What the clamps of the source do achieve. With both capacities non-negative and a
  book in the source's sign convention, every single order that either variant of
  \<open>generate_orders\<close> emits stays within the capacity of its side, so that one order
  filling in full keeps the position within the limit; and with a non-zero limit
  \<open>generate_orders\<close> does return a list.
\<close>

lemma orders_within_capacity:
  assumes "0 \<le> lmt - cur" "0 \<le> lmt + cur" "book_signed od"
  shows "(\<forall>os. generate_orders p od fv cur lmt s = Inr os \<longrightarrow>
            (\<forall>ord \<in> set os. within_capacity cur lmt ord \<and> \<bar>cur + quantity ord\<bar> \<le> lmt)) \<and>
         (\<forall>os. generate_orders2 p od fv cur lmt s = Inr os \<longrightarrow>
            (\<forall>ord \<in> set os. within_capacity cur lmt ord \<and> \<bar>cur + quantity ord\<bar> \<le> lmt)) \<and>
         (lmt \<noteq> 0 \<longrightarrow> (\<exists>os. generate_orders p od fv cur lmt s = Inr os))"
proof (intro conjI allI impI ballI)
  fix os ord
  assume "generate_orders p od fv cur lmt s = Inr os" "ord \<in> set os"
  from generate_orders_parts [OF this]
  show w: "within_capacity cur lmt ord"
    using market_making_capacity [OF assms(1,2)] arbitrage_capacity [OF assms] by blast
  then show "\<bar>cur + quantity ord\<bar> \<le> lmt" by (rule within_capacity_abs)
next
  fix os ord
  assume "generate_orders2 p od fv cur lmt s = Inr os" "ord \<in> set os"
  from generate_orders2_parts [OF this]
  show w: "within_capacity cur lmt ord"
    using market_making2_capacity [OF assms(1,2)] arbitrage_capacity [OF assms] by blast
  then show "\<bar>cur + quantity ord\<bar> \<le> lmt" by (rule within_capacity_abs)
next
  assume "lmt \<noteq> 0"
  then show "\<exists>os. generate_orders p od fv cur lmt s = Inr os"
    by (rule generate_orders_returns)
qed

lemma orders_within_capacity_example:
  "(0::int) \<le> 20 - 18 \<and> (0::int) \<le> 20 + 18 \<and>
   book_signed \<lparr>buy_orders = [(9995, 7)], sell_orders = [(10005, -4)]\<rparr> \<and>
   generate_orders ''PEARLS'' \<lparr>buy_orders = [(9995, 7)], sell_orders = [(10005, -4)]\<rparr>
     10000 18 20
     \<lparr>prices = [10000, 10000, 10000, 10000, 10000, 10000], spreads = [10, 10, 10, 10, 10, 10],
      volumes = [11, 11, 11, 11, 11, 11], volatility = 0, spread_threshold = 2\<rparr>
     = Inr [Order ''PEARLS'' 9996 1, Order ''PEARLS'' 10004 (- 5)] \<and>
   list_all (within_capacity 18 20) [Order ''PEARLS'' 9996 1, Order ''PEARLS'' 10004 (- 5)]"
proof -
  let ?od = "\<lparr>buy_orders = [(9995, 7)], sell_orders = [(10005, -4)]\<rparr>"
  let ?s = "\<lparr>prices = [10000, 10000, 10000, 10000, 10000, 10000 :: real],
             spreads = [10, 10, 10, 10, 10, 10 :: int],
             volumes = [11, 11, 11, 11, 11, 11 :: int], volatility = 0, spread_threshold = 2\<rparr>"
  have h: "(0::int) \<le> 20 - 18" "(0::int) \<le> 20 + 18" "book_signed ?od"
    by (simp_all add: book_signed_def)
  have g: "generate_orders ''PEARLS'' ?od 10000 18 20 ?s
             = Inr [Order ''PEARLS'' 9996 1, Order ''PEARLS'' 10004 (- 5)]"
    by (simp add: generate_orders_def best_bid_or_0_def best_ask_or_0_def max_key_def min_key_def
        market_making_def quote_prices_def arbitrage_def throttle_def dict_get_def py_round_def)
  from orders_within_capacity [OF h, of "''PEARLS''" 10000 ?s] g
  have "\<forall>ord \<in> set [Order ''PEARLS'' 9996 1, Order ''PEARLS'' 10004 (- 5)].
          within_capacity 18 20 ord"
    by blast
  then show ?thesis using h g by (simp add: list_all_iff)
qed

text \<open>
  C1. The orders of one tick must not, all filled, move the position past the limit.
  The source computes the available quantities once and sizes the market-making quote
  and the arbitrage take against the same undiminished \<open>max_buy\<close>, so the claim is
  broken whenever both fire. At position -20 with limit 20 and 45 units offered below
  the band, run.py buys 5 and 40 and ends at 25, Run2.0.py buys 10 and 40 and ends at
  30; from a flat position Run2.0.py buys 10 and 20 against a capacity of 20.
\<close>

theorem generate_orders_exceeds_limit:
  "(0::int) \<le> 20 - (- 20) \<and> (0::int) \<le> 20 + (- 20) \<and>
   book_signed \<lparr>buy_orders = [(9950, 10)], sell_orders = [(9960, -45)]\<rparr> \<and>
   generate_orders ''PEARLS'' \<lparr>buy_orders = [(9950, 10)], sell_orders = [(9960, -45)]\<rparr>
     10000 (- 20) 20
     \<lparr>prices = [9955, 9955, 9955, 9955, 9955, 9955], spreads = [10, 10, 10, 10, 10, 10],
      volumes = [55, 55, 55, 55, 55, 55], volatility = 0, spread_threshold = 2\<rparr>
     = Inr [Order ''PEARLS'' 9951 5, Order ''PEARLS'' 9960 40] \<and>
   filled_position (- 20) [Order ''PEARLS'' 9951 5, Order ''PEARLS'' 9960 40] = 25 \<and>
   \<not> \<bar>filled_position (- 20) [Order ''PEARLS'' 9951 5, Order ''PEARLS'' 9960 40]\<bar> \<le> 20 \<and>
   generate_orders2 ''PEARLS'' \<lparr>buy_orders = [(9950, 10)], sell_orders = [(9960, -45)]\<rparr>
     10000 (- 20) 20
     \<lparr>prices = [9955, 9955, 9955, 9955, 9955, 9955], spreads = [10, 10, 10, 10, 10, 10],
      volumes = [55, 55, 55, 55, 55, 55], volatility = 0, spread_threshold = 2\<rparr>
     = Inr [Order ''PEARLS'' 9951 10, Order ''PEARLS'' 9960 40] \<and>
   filled_position (- 20) [Order ''PEARLS'' 9951 10, Order ''PEARLS'' 9960 40] = 30 \<and>
   generate_orders2 ''PEARLS'' \<lparr>buy_orders = [(9950, 10)], sell_orders = [(9960, -45)]\<rparr>
     10000 0 20
     \<lparr>prices = [9955, 9955, 9955, 9955, 9955, 9955], spreads = [10, 10, 10, 10, 10, 10],
      volumes = [55, 55, 55, 55, 55, 55], volatility = 0, spread_threshold = 2\<rparr>
     = Inr [Order ''PEARLS'' 9951 10, Order ''PEARLS'' 10000 (- 10), Order ''PEARLS'' 9960 20] \<and>
   \<not> (10::int) + 20 \<le> 20 - 0"
proof -
  let ?od = "\<lparr>buy_orders = [(9950, 10)], sell_orders = [(9960, -45)]\<rparr>"
  let ?s = "\<lparr>prices = [9955, 9955, 9955, 9955, 9955, 9955 :: real],
             spreads = [10, 10, 10, 10, 10, 10 :: int],
             volumes = [55, 55, 55, 55, 55, 55 :: int], volatility = 0, spread_threshold = 2\<rparr>"
  have b: "best_bid_or_0 ?od = 9950" "best_ask_or_0 ?od = 9960"
    by (simp_all add: best_bid_or_0_def best_ask_or_0_def max_key_def min_key_def)
  have g: "generate_orders ''PEARLS'' ?od 10000 (- 20) 20 ?s
             = Inr [Order ''PEARLS'' 9951 5, Order ''PEARLS'' 9960 40]"
    by (simp add: generate_orders_def b market_making_def quote_prices_def arbitrage_def
        throttle_def dict_get_def py_round_def)
  have g2: "generate_orders2 ''PEARLS'' ?od 10000 (- 20) 20 ?s
             = Inr [Order ''PEARLS'' 9951 10, Order ''PEARLS'' 9960 40]"
    by (simp add: generate_orders2_def b market_making2_def quote_prices_def arbitrage_def
        throttle_def dict_get_def py_round_def base_size_def py_int_def)
  have g3: "generate_orders2 ''PEARLS'' ?od 10000 0 20 ?s
             = Inr [Order ''PEARLS'' 9951 10, Order ''PEARLS'' 10000 (- 10),
                    Order ''PEARLS'' 9960 20]"
    by (simp add: generate_orders2_def b market_making2_def quote_prices_def arbitrage_def
        throttle_def dict_get_def py_round_def base_size_def py_int_def)
  have w: "book_signed ?od" by (simp add: book_signed_def)
  from g g2 g3 w show ?thesis by (simp add: filled_position_def)
qed

subsection \<open>Inventory throttling\<close>

lemma throttle_long: "t < r \<Longrightarrow> throttle t r (b, s) = (max 1 (b div 2), s)"
  by (simp add: throttle_def)

lemma throttle_short: "0 \<le> t \<Longrightarrow> r < - t \<Longrightarrow> throttle t r (b, s) = (b, max 1 (s div 2))"
  by (simp add: throttle_def)

lemma half_min_le: "max 1 (min b m div 2) \<le> max 1 (b div (2::int))"
proof -
  have "min b m div 2 \<le> b div 2" by (rule zdiv_mono1) simp_all
  then show ?thesis by simp
qed

lemma market_making_long:
  assumes "6/10 < (of_int cur / of_int lmt :: real)"
    and "market_making p bb ba fv cur lmt s = Inr qs" "ord \<in> set qs" "0 < quantity ord"
  shows "quantity ord = max 1 (min 5 (lmt - cur) div 2)"
proof -
  from assms(1) have r: "5/10 < (of_int cur / of_int lmt :: real)" by simp
  obtain x y where q: "quote_prices fv (volatility s * (5/10)) bb ba = (x, y)"
    by (cases "quote_prices fv (volatility s * (5/10)) bb ba")
  from assms(2) market_making_eq [OF market_making_limit [OF assms(2)] q throttle_long [OF r]]
  have "qs = (if 0 < lmt - cur then [Order p x (max 1 (min 5 (lmt - cur) div 2))] else []) @
             (if 0 < lmt + cur then [Order p y (- min 5 (lmt + cur))] else [])"
    by simp
  with assms(3)
  have "(0 < lmt - cur \<and> quantity ord = max 1 (min 5 (lmt - cur) div 2)) \<or>
        (0 < lmt + cur \<and> quantity ord = - min 5 (lmt + cur))"
    using quotes_mem by blast
  with assms(4) show ?thesis by linarith
qed

lemma market_making_short:
  assumes "(of_int cur / of_int lmt :: real) < - (6/10)"
    and "market_making p bb ba fv cur lmt s = Inr qs" "ord \<in> set qs" "quantity ord < 0"
  shows "- quantity ord = max 1 (min 5 (lmt + cur) div 2)"
proof -
  from assms(1) have r: "(of_int cur / of_int lmt :: real) < - (5/10)" by simp
  have t: "(0::real) \<le> 5/10" by simp
  obtain x y where q: "quote_prices fv (volatility s * (5/10)) bb ba = (x, y)"
    by (cases "quote_prices fv (volatility s * (5/10)) bb ba")
  from assms(2) market_making_eq [OF market_making_limit [OF assms(2)] q throttle_short [OF t r]]
  have "qs = (if 0 < lmt - cur then [Order p x (min 5 (lmt - cur))] else []) @
             (if 0 < lmt + cur then [Order p y (- max 1 (min 5 (lmt + cur) div 2))] else [])"
    by simp
  with assms(3)
  have "(0 < lmt - cur \<and> quantity ord = min 5 (lmt - cur)) \<or>
        (0 < lmt + cur \<and> quantity ord = - max 1 (min 5 (lmt + cur) div 2))"
    using quotes_mem by blast
  with assms(4) show ?thesis by linarith
qed

lemma market_making2_long:
  assumes r: "6/10 < (of_int cur / of_int lmt :: real)"
    and "base_size (volatility s) = Inr base"
    and "market_making2 p bb ba fv cur lmt s = Inr qs" "ord \<in> set qs" "0 < quantity ord"
  shows "quantity ord = max 1 (min base (lmt - cur) div 2)"
proof -
  have b: "2 \<le> base" using base_size_range [OF assms(2)] by simp
  from market_making2_limit [OF assms(3)] have l: "lmt \<noteq> 0" "volumes s \<noteq> []" by simp_all
  obtain x y where
    q: "quote_prices fv (if 100 < last (volumes s) then volatility s * (7/10) * (8/10)
                         else volatility s * (7/10)) bb ba = (x, y)"
    by (cases "quote_prices fv (if 100 < last (volumes s) then volatility s * (7/10) * (8/10)
                                else volatility s * (7/10)) bb ba")
  from assms(3) market_making2_eq [OF l assms(2) q throttle_long [OF r]]
  have "qs = (if 0 < lmt - cur \<and> 0 < x
              then [Order p x (max 1 (min base (lmt - cur) div 2))] else []) @
             (if 0 < lmt + cur \<and> 0 < y then [Order p y (- min base (lmt + cur))] else [])"
    by simp
  with assms(4)
  have "(0 < lmt - cur \<and> 0 < x \<and> quantity ord = max 1 (min base (lmt - cur) div 2)) \<or>
        (0 < lmt + cur \<and> 0 < y \<and> quantity ord = - min base (lmt + cur))"
    using quotes_mem [of ord "0 < lmt - cur \<and> 0 < x" p x _ "0 < lmt + cur \<and> 0 < y" y] by blast
  with assms(5) b show ?thesis by linarith
qed

lemma market_making2_short:
  assumes r: "(of_int cur / of_int lmt :: real) < - (6/10)"
    and "base_size (volatility s) = Inr base"
    and "market_making2 p bb ba fv cur lmt s = Inr qs" "ord \<in> set qs" "quantity ord < 0"
  shows "- quantity ord = max 1 (min base (lmt + cur) div 2)"
proof -
  have b: "2 \<le> base" using base_size_range [OF assms(2)] by simp
  have t: "(0::real) \<le> 6/10" by simp
  from market_making2_limit [OF assms(3)] have l: "lmt \<noteq> 0" "volumes s \<noteq> []" by simp_all
  obtain x y where
    q: "quote_prices fv (if 100 < last (volumes s) then volatility s * (7/10) * (8/10)
                         else volatility s * (7/10)) bb ba = (x, y)"
    by (cases "quote_prices fv (if 100 < last (volumes s) then volatility s * (7/10) * (8/10)
                                else volatility s * (7/10)) bb ba")
  from assms(3) market_making2_eq [OF l assms(2) q throttle_short [OF t r]]
  have "qs = (if 0 < lmt - cur \<and> 0 < x then [Order p x (min base (lmt - cur))] else []) @
             (if 0 < lmt + cur \<and> 0 < y
              then [Order p y (- max 1 (min base (lmt + cur) div 2))] else [])"
    by simp
  with assms(4)
  have "(0 < lmt - cur \<and> 0 < x \<and> quantity ord = min base (lmt - cur)) \<or>
        (0 < lmt + cur \<and> 0 < y \<and> quantity ord = - max 1 (min base (lmt + cur) div 2))"
    using quotes_mem [of ord "0 < lmt - cur \<and> 0 < x" p x _ "0 < lmt + cur \<and> 0 < y" y] by blast
  with assms(5) b show ?thesis by linarith
qed

lemma base_size_returns: "0 \<le> v \<Longrightarrow> \<exists>b. base_size v = Inr b"
proof -
  assume "0 \<le> v"
  then have "0 < 1 + v * 10" by simp
  then show ?thesis by (simp add: base_size_def)
qed

lemma market_making2_returns:
  assumes "lmt \<noteq> 0" "volumes s \<noteq> []" "0 \<le> volatility s"
  shows "\<exists>qs. market_making2 p bb ba fv cur lmt s = Inr qs"
proof -
  from base_size_returns [OF assms(3)] obtain b where "base_size (volatility s) = Inr b" ..
  then show ?thesis
    using assms(1,2) by (simp add: market_making2_def Let_def split: prod.splits)
qed

lemma best_prices_keys:
  assumes "best_bid_or_0 od \<noteq> 0" "best_ask_or_0 od \<noteq> 0"
  shows "best_bid_or_0 od \<in> fst ` set (buy_orders od)"
    and "best_ask_or_0 od \<in> fst ` set (sell_orders od)"
proof -
  from assms have ne: "buy_orders od \<noteq> []" "sell_orders od \<noteq> []"
    by (auto simp: best_bid_or_0_def best_ask_or_0_def split: if_splits)
  then show "best_bid_or_0 od \<in> fst ` set (buy_orders od)"
    using max_key_mem [of "buy_orders od"] by (simp add: best_bid_or_0_def)
  from ne show "best_ask_or_0 od \<in> fst ` set (sell_orders od)"
    using min_key_mem [of "sell_orders od"] by (simp add: best_ask_or_0_def)
qed

text \<open>
  C5. On a two-sided book with more than five stored mid-prices, the orders of
  \<open>generate_orders\<close> are the market-making quotes followed by the takes, in both
  variants, and the quotes always pass through the size adjustment: with
  \<open>position / limit > 0.6\<close> a quoted buy has size \<open>max 1 (b div 2)\<close> for the
  unthrottled size \<open>b\<close>, at most \<open>max 1 (base div 2)\<close>; with the ratio below
  \<open>-0.6\<close> the same holds for a quoted sell.
\<close>

theorem inventory_throttling:
  assumes "best_bid_or_0 od \<noteq> 0" "best_ask_or_0 od \<noteq> 0" "5 < length (prices s)" "lmt \<noteq> 0"
    and "volumes s \<noteq> []" "0 \<le> volatility s"
  shows "\<exists>quotes takes quotes2 takes2 base.
           generate_orders p od fv cur lmt s = Inr (quotes @ takes) \<and>
           market_making p (best_bid_or_0 od) (best_ask_or_0 od) fv cur lmt s = Inr quotes \<and>
           generate_orders2 p od fv cur lmt s = Inr (quotes2 @ takes2) \<and>
           market_making2 p (best_bid_or_0 od) (best_ask_or_0 od) fv cur lmt s = Inr quotes2 \<and>
           base_size (volatility s) = Inr base \<and>
           (6/10 < (of_int cur / of_int lmt :: real) \<longrightarrow>
              (\<forall>ord \<in> set quotes. 0 < quantity ord \<longrightarrow>
                 quantity ord = max 1 (min 5 (lmt - cur) div 2) \<and> quantity ord \<le> max 1 (5 div 2)) \<and>
              (\<forall>ord \<in> set quotes2. 0 < quantity ord \<longrightarrow>
                 quantity ord = max 1 (min base (lmt - cur) div 2) \<and>
                 quantity ord \<le> max 1 (base div 2))) \<and>
           ((of_int cur / of_int lmt :: real) < - (6/10) \<longrightarrow>
              (\<forall>ord \<in> set quotes. quantity ord < 0 \<longrightarrow>
                 - quantity ord = max 1 (min 5 (lmt + cur) div 2) \<and>
                 - quantity ord \<le> max 1 (5 div 2)) \<and>
              (\<forall>ord \<in> set quotes2. quantity ord < 0 \<longrightarrow>
                 - quantity ord = max 1 (min base (lmt + cur) div 2) \<and>
                 - quantity ord \<le> max 1 (base div 2)))"
proof -
  let ?bb = "best_bid_or_0 od" and ?ba = "best_ask_or_0 od"
  note k = best_prices_keys [OF assms(1,2)]
  from market_making_returns [OF assms(4)] obtain quotes where
    q: "market_making p ?bb ?ba fv cur lmt s = Inr quotes" by blast
  from market_making2_returns [OF assms(4,5,6)] obtain quotes2 where
    q2: "market_making2 p ?bb ?ba fv cur lmt s = Inr quotes2" by blast
  from arbitrage_returns [OF k] obtain takes where
    t: "arbitrage (1/1000) p od ?bb ?ba fv cur lmt = Inr takes" by blast
  from arbitrage_returns [OF k] obtain takes2 where
    t2: "arbitrage (3/1000) p od ?bb ?ba fv cur lmt = Inr takes2" by blast
  from base_size_returns [OF assms(6)] obtain base where
    b: "base_size (volatility s) = Inr base" ..
  have g: "generate_orders p od fv cur lmt s = Inr (quotes @ takes)"
    using assms(1-3) q t by (simp add: generate_orders_def Let_def)
  have g2: "generate_orders2 p od fv cur lmt s = Inr (quotes2 @ takes2)"
    using assms(1-3) q2 t2 by (simp add: generate_orders2_def Let_def)
  have long: "\<forall>ord \<in> set quotes. 0 < quantity ord \<longrightarrow>
                 quantity ord = max 1 (min 5 (lmt - cur) div 2) \<and> quantity ord \<le> max 1 (5 div 2)"
    if r: "6/10 < (of_int cur / of_int lmt :: real)"
  proof (intro ballI impI)
    fix ord assume "ord \<in> set quotes" "0 < quantity ord"
    from market_making_long [OF r q this]
    show "quantity ord = max 1 (min 5 (lmt - cur) div 2) \<and> quantity ord \<le> max 1 (5 div 2)"
      using half_min_le [of 5 "lmt - cur"] by simp
  qed
  have long2: "\<forall>ord \<in> set quotes2. 0 < quantity ord \<longrightarrow>
                 quantity ord = max 1 (min base (lmt - cur) div 2) \<and>
                 quantity ord \<le> max 1 (base div 2)"
    if r: "6/10 < (of_int cur / of_int lmt :: real)"
  proof (intro ballI impI)
    fix ord assume "ord \<in> set quotes2" "0 < quantity ord"
    from market_making2_long [OF r b q2 this]
    show "quantity ord = max 1 (min base (lmt - cur) div 2) \<and> quantity ord \<le> max 1 (base div 2)"
      using half_min_le [of base "lmt - cur"] by simp
  qed
  have short: "\<forall>ord \<in> set quotes. quantity ord < 0 \<longrightarrow>
                 - quantity ord = max 1 (min 5 (lmt + cur) div 2) \<and>
                 - quantity ord \<le> max 1 (5 div 2)"
    if r: "(of_int cur / of_int lmt :: real) < - (6/10)"
  proof (intro ballI impI)
    fix ord assume "ord \<in> set quotes" "quantity ord < 0"
    from market_making_short [OF r q this]
    show "- quantity ord = max 1 (min 5 (lmt + cur) div 2) \<and> - quantity ord \<le> max 1 (5 div 2)"
      using half_min_le [of 5 "lmt + cur"] by simp
  qed
  have short2: "\<forall>ord \<in> set quotes2. quantity ord < 0 \<longrightarrow>
                 - quantity ord = max 1 (min base (lmt + cur) div 2) \<and>
                 - quantity ord \<le> max 1 (base div 2)"
    if r: "(of_int cur / of_int lmt :: real) < - (6/10)"
  proof (intro ballI impI)
    fix ord assume "ord \<in> set quotes2" "quantity ord < 0"
    from market_making2_short [OF r b q2 this]
    show "- quantity ord = max 1 (min base (lmt + cur) div 2) \<and> - quantity ord \<le> max 1 (base div 2)"
      using half_min_le [of base "lmt + cur"] by simp
  qed
  show ?thesis
    apply (rule exI [of _ quotes], rule exI [of _ takes], rule exI [of _ quotes2],
        rule exI [of _ takes2], rule exI [of _ base])
    using g q g2 q2 b long long2 short short2 by (intro conjI impI) assumption+
qed

theorem inventory_throttling_witness:
  "best_bid_or_0 \<lparr>buy_orders = [(9995, 7)], sell_orders = [(10005, -4)]\<rparr> = 9995 \<and>
   best_ask_or_0 \<lparr>buy_orders = [(9995, 7)], sell_orders = [(10005, -4)]\<rparr> = 10005 \<and>
   (6/10 :: real) < of_int 18 / of_int 20 \<and>
   market_making ''PEARLS'' 9995 10005 10000 18 20
     \<lparr>prices = [10000, 10000, 10000, 10000, 10000, 10000], spreads = [10, 10, 10, 10, 10, 10],
      volumes = [11, 11, 11, 11, 11, 11], volatility = 0, spread_threshold = 2\<rparr>
     = Inr [Order ''PEARLS'' 9996 1, Order ''PEARLS'' 10004 (- 5)] \<and>
   market_making2 ''PEARLS'' 9995 10005 10000 18 20
     \<lparr>prices = [10000, 10000, 10000, 10000, 10000, 10000], spreads = [10, 10, 10, 10, 10, 10],
      volumes = [11, 11, 11, 11, 11, 11], volatility = 0, spread_threshold = 2\<rparr>
     = Inr [Order ''PEARLS'' 9996 1, Order ''PEARLS'' 10004 (- 10)] \<and>
   (1::int) = max 1 (min 5 (20 - 18) div 2)"
proof -
  let ?od = "\<lparr>buy_orders = [(9995, 7)], sell_orders = [(10005, -4)]\<rparr>"
  let ?s = "\<lparr>prices = [10000, 10000, 10000, 10000, 10000, 10000 :: real],
             spreads = [10, 10, 10, 10, 10, 10 :: int],
             volumes = [11, 11, 11, 11, 11, 11 :: int], volatility = 0, spread_threshold = 2\<rparr>"
  have bb: "best_bid_or_0 ?od = 9995" and ba: "best_ask_or_0 ?od = 10005"
    by (simp_all add: best_bid_or_0_def best_ask_or_0_def max_key_def min_key_def)
  have h: "best_bid_or_0 ?od \<noteq> 0" "best_ask_or_0 ?od \<noteq> 0" "5 < length (prices ?s)"
    "(20::int) \<noteq> 0" "volumes ?s \<noteq> []" "0 \<le> volatility ?s"
    by (simp_all add: bb ba)
  have r: "(6/10 :: real) < of_int 18 / of_int 20" by simp
  have m: "market_making ''PEARLS'' 9995 10005 10000 18 20 ?s
             = Inr [Order ''PEARLS'' 9996 1, Order ''PEARLS'' 10004 (- 5)]"
    by (simp add: market_making_def quote_prices_def throttle_def py_round_def)
  have m2: "market_making2 ''PEARLS'' 9995 10005 10000 18 20 ?s
             = Inr [Order ''PEARLS'' 9996 1, Order ''PEARLS'' 10004 (- 10)]"
    by (simp add: market_making2_def quote_prices_def throttle_def py_round_def base_size_def
        py_int_def)
  from inventory_throttling [OF h, of "''PEARLS''" 10000 18] r
  obtain quotes where
    "market_making ''PEARLS'' (best_bid_or_0 ?od) (best_ask_or_0 ?od) 10000 18 20 ?s = Inr quotes"
    "\<forall>ord \<in> set quotes. 0 < quantity ord \<longrightarrow> quantity ord = max 1 (min 5 (20 - 18) div 2)"
    by blast
  with m bb ba have "(1::int) = max 1 (min 5 (20 - 18) div 2)"
    by simp
  with bb ba r m m2 show ?thesis by simp
qed

subsection \<open>History\<close>

lemma update_product_volumes:
  "volumes (update_product od s) =
     volumes s @ [abs_volume (buy_orders od) + abs_volume (sell_orders od)]"
  by (simp add: update_product_def Let_def)

lemma update_product_one_sided:
  assumes "best_bid_or_0 od = 0 \<or> best_ask_or_0 od = 0"
  shows "prices (update_product od s) = prices s" "spreads (update_product od s) = spreads s"
    "volatility (update_product od s) = volatility s"
  using assms by (auto simp: update_product_def Let_def)

lemma update_product_two_sided:
  assumes "best_bid_or_0 od \<noteq> 0" "best_ask_or_0 od \<noteq> 0"
  shows "prices (update_product od s) =
           prices s @ [(of_int (best_bid_or_0 od) + of_int (best_ask_or_0 od)) / 2]"
    and "spreads (update_product od s) = spreads s @ [best_ask_or_0 od - best_bid_or_0 od]"
  using assms by (auto simp: update_product_def Let_def)

lemma update_historical_data_other:
  "p \<notin> fst ` set ods \<Longrightarrow> update_historical_data ods hist p = hist p"
  unfolding update_historical_data_def
  by (induction ods arbitrary: hist) auto

lemma update_historical_data_lookup:
  assumes "distinct (map fst ods)" "(p, od) \<in> set ods"
  shows "update_historical_data ods hist p = Some (update_product od (state_of hist p))"
  using assms
proof (induction ods arbitrary: hist)
  case Nil
  then show ?case by simp
next
  case (Cons a ods)
  obtain q od' where a: "a = (q, od')" by (cases a)
  let ?h = "hist(q \<mapsto> update_product od' (state_of hist q))"
  have step: "update_historical_data (a # ods) hist = update_historical_data ods ?h"
    by (simp add: update_historical_data_def a)
  show ?case
  proof (cases "(p, od) = a")
    case True
    with a Cons.prems(1) have "p \<notin> fst ` set ods" "q = p" "od' = od" by auto
    then show ?thesis
      using update_historical_data_other [of p ods ?h] step by simp
  next
    case False
    with Cons.prems have mem: "(p, od) \<in> set ods" and d: "distinct (map fst ods)" by auto
    from mem Cons.prems(1) a have "q \<noteq> p" by (auto simp: image_iff)
    then have st: "state_of ?h p = state_of hist p" by (simp add: state_of_def)
    have "update_historical_data ods ?h p = Some (update_product od (state_of ?h p))"
      by (rule Cons.IH [OF d mem])
    then show ?thesis by (simp only: step st)
  qed
qed

lemma one_sided_best:
  "buy_orders od = [] \<or> sell_orders od = [] \<Longrightarrow> best_bid_or_0 od = 0 \<or> best_ask_or_0 od = 0"
  by (auto simp: best_bid_or_0_def best_ask_or_0_def)

text \<open>
  C4. For an instrument of the tick whose book has an empty side, \<open>generate_orders\<close>
  returns no order at all, \<open>update_historical_data\<close> leaves its mid-price and spread
  histories (and its volatility) as they were, and appends the sum of the absolute
  quantities of both sides to its volume history.
\<close>

theorem one_sided_book:
  assumes "distinct (map fst ods)" "(p, od) \<in> set ods"
    and "buy_orders od = [] \<or> sell_orders od = []"
  shows "generate_orders p od fv cur lmt s = Inr [] \<and>
         generate_orders2 p od fv cur lmt s = Inr [] \<and>
         prices (state_of (update_historical_data ods hist) p) = prices (state_of hist p) \<and>
         spreads (state_of (update_historical_data ods hist) p) = spreads (state_of hist p) \<and>
         volumes (state_of (update_historical_data ods hist) p) =
           volumes (state_of hist p) @ [abs_volume (buy_orders od) + abs_volume (sell_orders od)]"
proof -
  note b = one_sided_best [OF assms(3)]
  have st: "state_of (update_historical_data ods hist) p = update_product od (state_of hist p)"
    using update_historical_data_lookup [OF assms(1,2)] by (simp add: state_of_def)
  from b have "generate_orders p od fv cur lmt s = Inr []"
    "generate_orders2 p od fv cur lmt s = Inr []"
    by (auto simp: generate_orders_def generate_orders2_def Let_def)
  then show ?thesis
    using update_product_one_sided [OF b] update_product_volumes st by simp
qed

theorem one_sided_book_witness:
  "distinct (map fst [(''PEARLS'', \<lparr>buy_orders = [], sell_orders = [(10005, -4), (10006, -3)]\<rparr>)]) \<and>
   generate_orders ''PEARLS'' \<lparr>buy_orders = [], sell_orders = [(10005, -4), (10006, -3)]\<rparr>
     10000 0 20 initialize_product_state = Inr [] \<and>
   prices (state_of (update_historical_data
      [(''PEARLS'', \<lparr>buy_orders = [], sell_orders = [(10005, -4), (10006, -3)]\<rparr>)] Map.empty)
      ''PEARLS'') = [] \<and>
   spreads (state_of (update_historical_data
      [(''PEARLS'', \<lparr>buy_orders = [], sell_orders = [(10005, -4), (10006, -3)]\<rparr>)] Map.empty)
      ''PEARLS'') = [] \<and>
   volumes (state_of (update_historical_data
      [(''PEARLS'', \<lparr>buy_orders = [], sell_orders = [(10005, -4), (10006, -3)]\<rparr>)] Map.empty)
      ''PEARLS'') = [7]"
proof -
  let ?od = "\<lparr>buy_orders = [], sell_orders = [(10005, -4), (10006, -3)]\<rparr>"
  have h: "distinct (map fst [(''PEARLS'', ?od)])" "(''PEARLS'', ?od) \<in> set [(''PEARLS'', ?od)]"
    "buy_orders ?od = [] \<or> sell_orders ?od = []"
    by simp_all
  from one_sided_book [OF h, of 10000 0 20 initialize_product_state Map.empty]
  show ?thesis
    by (simp add: state_of_def initialize_product_state_def abs_volume_def)
qed

subsection \<open>Bounded and unbounded histories\<close>

lemma keep_last_length: "length (keep_last n xs) \<le> n"
  by (simp add: keep_last_def)

lemma keep_last_short: "length xs \<le> n \<Longrightarrow> keep_last n xs = xs"
  by (simp add: keep_last_def)

lemma keep_last_append: "keep_last n (keep_last n xs @ ys) = keep_last n (xs @ ys)"
  by (cases "length xs \<le> n") (auto simp: keep_last_def add.commute)

lemma keep_last_suffix: "\<exists>dropped. xs = dropped @ keep_last n xs"
  using append_take_drop_id [of "length xs - n" xs, symmetric]
  unfolding keep_last_def by blast

lemma log_price_at:
  "history_of (log_price history p x) p = keep_last 300 (history_of history p @ [x])"
  by (simp add: log_price_def history_of_def Let_def keep_last_def)

lemma log_price_other: "q \<noteq> p \<Longrightarrow> log_price history p x q = history q"
  by (simp add: log_price_def Let_def)

lemma log_prices_at:
  "length (history_of history p) \<le> 300 \<Longrightarrow>
   history_of (log_prices p xs history) p = keep_last 300 (history_of history p @ xs)"
proof (induction xs arbitrary: history)
  case Nil
  then show ?case by (simp add: log_prices_def keep_last_short)
next
  case (Cons x xs)
  have "length (history_of (log_price history p x) p) \<le> 300"
    by (simp add: log_price_at keep_last_length)
  from Cons.IH [OF this] show ?case
    by (simp add: log_prices_def log_price_at keep_last_append)
qed

lemma fold_update_volumes:
  "length (volumes (fold update_product ods s)) = length (volumes s) + length ods"
  by (induction ods arbitrary: s) (simp_all add: update_product_volumes)

lemma fold_update_prices:
  "list_all (\<lambda>od. best_bid_or_0 od \<noteq> 0 \<and> best_ask_or_0 od \<noteq> 0) ods \<Longrightarrow>
   length (prices (fold update_product ods s)) = length (prices s) + length ods \<and>
   length (spreads (fold update_product ods s)) = length (spreads s) + length ods"
  by (induction ods arbitrary: s) (simp_all add: update_product_two_sided)

text \<open>
  C7 (as amended). The price log of Run7.py holds, for a product, the last 300 of the
  prices logged for it, in the order they were logged: a suffix of all of them, never
  longer than 300. The histories of run.py and Run2.0.py are never cut: every tick adds
  one volume, and every tick with a two-sided book one mid-price and one spread.
\<close>

theorem price_log_bounded:
  assumes "length (history_of history p) \<le> 300"
  shows "history_of (log_prices p xs history) p = keep_last 300 (history_of history p @ xs) \<and>
         length (history_of (log_prices p xs history) p) \<le> 300 \<and>
         (\<exists>dropped. history_of history p @ xs = dropped @ history_of (log_prices p xs history) p) \<and>
         length (volumes (fold update_product ods s)) = length (volumes s) + length ods \<and>
         (list_all (\<lambda>od. best_bid_or_0 od \<noteq> 0 \<and> best_ask_or_0 od \<noteq> 0) ods \<longrightarrow>
            length (prices (fold update_product ods s)) = length (prices s) + length ods \<and>
            length (spreads (fold update_product ods s)) = length (spreads s) + length ods)"
  using log_prices_at [OF assms, of xs] keep_last_length [of 300 "history_of history p @ xs"]
    keep_last_suffix [of "history_of history p @ xs" 300] fold_update_volumes [of ods s]
    fold_update_prices [of ods s]
  by simp

theorem price_log_bounded_witness:
  "length (history_of Map.empty ''VOLCANIC_ROCK'') \<le> 300 \<and>
   history_of (log_prices ''VOLCANIC_ROCK'' (replicate 300 10000 @ [10001, 10002]) Map.empty)
     ''VOLCANIC_ROCK'' = replicate 298 10000 @ [10001, 10002]"
proof -
  have h: "length (history_of Map.empty ''VOLCANIC_ROCK'') \<le> 300"
    by (simp add: history_of_def)
  have "keep_last 300 (replicate 300 (10000::real) @ [10001, 10002])
          = replicate 298 10000 @ [10001, 10002]"
    by (simp add: keep_last_def)
  with price_log_bounded [OF h, of "replicate 300 10000 @ [10001, 10002]"] h
  show ?thesis by (simp add: history_of_def)
qed

text \<open>
  C7 as stated fails on run.py: after 301 ticks with the same two-sided book all three
  histories of the product hold 301 entries.
\<close>

theorem history_unbounded_counterexample:
  "length (volumes (fold update_product
      (replicate 301 \<lparr>buy_orders = [(10, 5)], sell_orders = [(11, -4)]\<rparr>)
      initialize_product_state)) = 301 \<and>
   length (prices (fold update_product
      (replicate 301 \<lparr>buy_orders = [(10, 5)], sell_orders = [(11, -4)]\<rparr>)
      initialize_product_state)) = 301 \<and>
   length (spreads (fold update_product
      (replicate 301 \<lparr>buy_orders = [(10, 5)], sell_orders = [(11, -4)]\<rparr>)
      initialize_product_state)) = 301 \<and>
   \<not> length (volumes (fold update_product
      (replicate 301 \<lparr>buy_orders = [(10, 5)], sell_orders = [(11, -4)]\<rparr>)
      initialize_product_state)) \<le> 300"
proof -
  let ?od = "\<lparr>buy_orders = [(10, 5)], sell_orders = [(11, -4)]\<rparr>"
  have "list_all (\<lambda>od. best_bid_or_0 od \<noteq> 0 \<and> best_ask_or_0 od \<noteq> 0) (replicate 301 ?od)"
    by (simp add: list_all_iff best_bid_or_0_def best_ask_or_0_def max_key_def min_key_def)
  from fold_update_prices [OF this, of initialize_product_state]
    fold_update_volumes [of "replicate 301 ?od" initialize_product_state]
  show ?thesis by (simp add: initialize_product_state_def)
qed

subsection \<open>Baskets\<close>




subsection \<open>Basket arbitrage\<close>

text \<open>
  C9. Whatever the fair values, \<open>generate_basket_arbitrage_orders\<close> returns the empty
  dictionary, also when a basket is more than 0.5 percent away from its components, and
  merging it into the orders of the tick changes nothing.
\<close>

theorem basket_arbitrage_detect_only:
  "generate_basket_arbitrage_orders fv = Map.empty \<and>
   merge_orders result (generate_basket_arbitrage_orders fv) = result"
proof -
  have "generate_basket_arbitrage_orders fv = Map.empty"
    by (simp add: generate_basket_arbitrage_orders_def Let_def split: option.splits)
  then show ?thesis by (simp add: merge_orders_def)
qed

theorem basket_arbitrage_detect_only_witness:
  "(6 * 100 + 3 * 200 + 50) * (1005/1000) < (2000::real) \<and>
   generate_basket_arbitrage_orders
     [''PICNIC_BASKET1'' \<mapsto> 2000, ''CROISSANT'' \<mapsto> 100, ''JAM'' \<mapsto> 200, ''DJEMBE'' \<mapsto> 50]
     = Map.empty"
  using basket_arbitrage_detect_only
    [of "[''PICNIC_BASKET1'' \<mapsto> 2000, ''CROISSANT'' \<mapsto> 100, ''JAM'' \<mapsto> 200, ''DJEMBE'' \<mapsto> 50]"]
  by simp

subsection \<open>Recency weights\<close>

lemma np_linspace_length: "0 < n \<Longrightarrow> length (np_linspace a b n) = n"
  by (simp add: np_linspace_def)

lemma np_linspace_nth:
  "i < n \<Longrightarrow> np_linspace a b n ! i = a + (b - a) * real i / real (n - 1)"
  by (auto simp: np_linspace_def)

lemma sum_list_pos:
  fixes ws :: "real list"
  assumes "ws \<noteq> []" "\<forall>w \<in> set ws. 0 < w"
  shows "0 < sum_list ws"
  using assms
proof (induction ws)
  case Nil
  then show ?case by simp
next
  case (Cons w ws)
  then have w: "0 < w" by simp
  from Cons.prems have "\<And>x. x \<in> set ws \<Longrightarrow> 0 \<le> x" by (simp add: less_imp_le)
  then have "0 \<le> sum_list ws" by (rule sum_list_nonneg)
  with w show ?case by simp
qed

lemma sum_list_div: "sum_list (map (\<lambda>w. w / c) ws) = sum_list ws / (c::real)"
  by (induction ws) (simp_all add: add_divide_distrib)

lemma normalize_length: "length (normalize ws) = length ws"
  by (simp add: normalize_def)

lemma normalize_sum: "sum_list ws \<noteq> 0 \<Longrightarrow> sum_list (normalize ws) = 1"
  by (simp add: normalize_def sum_list_div)

lemma normalize_nth: "i < length ws \<Longrightarrow> normalize ws ! i = ws ! i / sum_list ws"
  by (simp add: normalize_def)

lemma exp_weights_pos:
  "0 < n \<Longrightarrow> 0 < sum_list (map exp (np_linspace a b n))"
proof -
  assume "0 < n"
  then have "map exp (np_linspace a b n) \<noteq> []"
    using np_linspace_length [of n a b] by auto
  then show ?thesis by (rule sum_list_pos) auto
qed

lemma bananas_weights_props:
  assumes "0 < n"
  shows "length (bananas_weights n) = n" "sum_list (bananas_weights n) = 1"
    and "\<forall>i < n. bananas_weights n ! i =
           exp (real i / real (n - 1)) / sum_list (map exp (np_linspace 0 1 n))"
proof -
  show "length (bananas_weights n) = n"
    using assms by (simp add: bananas_weights_def normalize_length np_linspace_length)
  show "sum_list (bananas_weights n) = 1"
    unfolding bananas_weights_def
    using exp_weights_pos [OF assms, of 0 1] by (intro normalize_sum) simp
  show "\<forall>i < n. bananas_weights n ! i =
           exp (real i / real (n - 1)) / sum_list (map exp (np_linspace 0 1 n))"
    using assms
    by (simp add: bananas_weights_def normalize_nth np_linspace_length np_linspace_nth)
qed

lemma bananas_weights2_uniform:
  assumes "0 < n" "n < 5"
  shows "bananas_weights2 n = replicate n (1 / real n)"
  using assms by (simp add: bananas_weights2_def normalize_def sum_list_replicate)

lemma bananas_weights2_exponential:
  assumes "5 \<le> n"
  shows "\<forall>i < n. bananas_weights2 n ! i =
           exp (2 * real i / real (n - 1)) / sum_list (map exp (np_linspace 0 2 n))"
  using assms
  by (simp add: bananas_weights2_def normalize_nth np_linspace_length np_linspace_nth)

lemma bananas_weights2_sum:
  assumes "0 < n"
  shows "length (bananas_weights2 n) = n" "sum_list (bananas_weights2 n) = 1"
proof -
  show "length (bananas_weights2 n) = n"
    using assms by (simp add: bananas_weights2_def normalize_length np_linspace_length)
  show "sum_list (bananas_weights2 n) = 1"
  proof (cases "n < 5")
    case True
    with assms show ?thesis
      by (simp add: bananas_weights2_uniform sum_list_replicate)
  next
    case False
    then show ?thesis
      unfolding bananas_weights2_def
      using exp_weights_pos [OF assms, of 0 2] by (simp add: normalize_sum)
  qed
qed

lemma bananas_weights2_increasing:
  assumes "5 \<le> n" "i < j" "j < n"
  shows "bananas_weights2 n ! i < bananas_weights2 n ! j"
proof -
  let ?S = "sum_list (map exp (np_linspace 0 2 n))"
  from assms have n: "0 < n" by simp
  have S: "0 < ?S" by (rule exp_weights_pos [OF n])
  from assms have "2 * real i / real (n - 1) < 2 * real j / real (n - 1)"
    by (simp add: divide_strict_right_mono)
  then have "exp (2 * real i / real (n - 1)) / ?S < exp (2 * real j / real (n - 1)) / ?S"
    using S by (simp add: divide_strict_right_mono)
  with bananas_weights2_exponential [OF assms(1)] assms show ?thesis by simp
qed

text \<open>
  C8 (as amended). On a non-empty mid-price history both variants return the dot
  product of the history with a weight vector of the same length that sums to 1. In
  Run2.0.py the weights are uniform below five observations and proportional to
  \<open>exp (2 i / (n - 1))\<close>, hence increasing towards the latest observation, from five
  on. In run.py they are proportional to \<open>exp (i / (n - 1))\<close> for every length.
\<close>

theorem recency_weighted_fair_value:
  assumes "ps \<noteq> []"
  shows "calculate_bananas_fair_value2 ps od = np_dot ps (bananas_weights2 (length ps)) \<and>
         length (bananas_weights2 (length ps)) = length ps \<and>
         sum_list (bananas_weights2 (length ps)) = 1 \<and>
         (length ps < 5 \<longrightarrow>
            bananas_weights2 (length ps) = replicate (length ps) (1 / real (length ps))) \<and>
         (5 \<le> length ps \<longrightarrow>
            (\<forall>i < length ps. bananas_weights2 (length ps) ! i =
               exp (2 * real i / real (length ps - 1)) /
               sum_list (map exp (np_linspace 0 2 (length ps)))) \<and>
            (\<forall>i j. i < j \<and> j < length ps \<longrightarrow>
               bananas_weights2 (length ps) ! i < bananas_weights2 (length ps) ! j)) \<and>
         calculate_bananas_fair_value ps od = np_dot ps (bananas_weights (length ps)) \<and>
         length (bananas_weights (length ps)) = length ps \<and>
         sum_list (bananas_weights (length ps)) = 1 \<and>
         (\<forall>i < length ps. bananas_weights (length ps) ! i =
            exp (real i / real (length ps - 1)) /
            sum_list (map exp (np_linspace 0 1 (length ps))))"
proof -
  from assms have n: "0 < length ps" by simp
  have v2: "calculate_bananas_fair_value2 ps od = np_dot ps (bananas_weights2 (length ps))"
    and v: "calculate_bananas_fair_value ps od = np_dot ps (bananas_weights (length ps))"
    using assms by (simp_all add: calculate_bananas_fair_value2_def calculate_bananas_fair_value_def)
  have u: "length ps < 5 \<longrightarrow>
            bananas_weights2 (length ps) = replicate (length ps) (1 / real (length ps))"
    using bananas_weights2_uniform [OF n] by blast
  have e: "5 \<le> length ps \<longrightarrow>
            (\<forall>i < length ps. bananas_weights2 (length ps) ! i =
               exp (2 * real i / real (length ps - 1)) /
               sum_list (map exp (np_linspace 0 2 (length ps)))) \<and>
            (\<forall>i j. i < j \<and> j < length ps \<longrightarrow>
               bananas_weights2 (length ps) ! i < bananas_weights2 (length ps) ! j)"
    using bananas_weights2_exponential [of "length ps"] bananas_weights2_increasing [of "length ps"]
    by blast
  from v2 v u e bananas_weights2_sum [OF n] bananas_weights_props [OF n]
  show ?thesis by (intro conjI) assumption+
qed

theorem recency_weighted_fair_value_witness:
  "[1, 2, 3 :: real] \<noteq> [] \<and> length [1, 2, 3 :: real] < 5 \<and>
   bananas_weights2 3 = [1/3, 1/3, 1/3] \<and>
   calculate_bananas_fair_value2 [1, 2, 3] \<lparr>buy_orders = [], sell_orders = []\<rparr> = 2"
proof -
  let ?od = "\<lparr>buy_orders = [], sell_orders = []\<rparr>"
  have h: "[1, 2, 3 :: real] \<noteq> []" by simp
  have l: "length [1, 2, 3 :: real] = 3" by simp
  note t = recency_weighted_fair_value [OF h, of ?od, unfolded l]
  from t have v: "calculate_bananas_fair_value2 [1, 2, 3] ?od = np_dot [1, 2, 3] (bananas_weights2 3)"
    by (rule conjunct1)
  from t have "(3::nat) < 5 \<longrightarrow> bananas_weights2 3 = replicate 3 (1 / real 3)"
    by blast
  then have w: "bananas_weights2 3 = [1/3, 1/3, 1/3]"
    by (simp add: numeral_3_eq_3)
  have "np_dot [1, 2, 3] [1/3, 1/3, 1/3 :: real] = 2"
    by (simp add: np_dot_def)
  with v w show ?thesis by simp
qed

text \<open>
  C8 as stated fails on run.py, which has no minimum: with two observations the
  weights are \<open>1 / (1 + e)\<close> and \<open>e / (1 + e)\<close>, not one half each, and the fair value of
  the history 1, 2 is not its plain average.
\<close>

theorem recency_weights_counterexample:
  "length [1, 2 :: real] < 5 \<and>
   bananas_weights 2 = [1 / (1 + exp 1), exp 1 / (1 + exp 1)] \<and>
   bananas_weights 2 \<noteq> [1/2, 1/2] \<and>
   calculate_bananas_fair_value [1, 2] \<lparr>buy_orders = [], sell_orders = []\<rparr>
     \<noteq> np_dot [1, 2] [1/2, 1/2]"
proof -
  have e: "(1::real) < exp 1" by simp
  have ls: "np_linspace 0 1 2 = [0, 1]"
    by (simp add: np_linspace_def upt_rec [of 0 2] upt_rec [of 1 2] numeral_2_eq_2)
  have w: "bananas_weights 2 = [1 / (1 + exp 1), exp 1 / (1 + exp 1)]"
    by (simp add: bananas_weights_def ls normalize_def)
  have pos: "(0::real) < 1 + exp 1" by (simp add: add_pos_pos)
  have ne: "(1::real) / (1 + exp 1) \<noteq> 1/2"
    using e pos by (simp add: field_simps)
  have "calculate_bananas_fair_value [1, 2] \<lparr>buy_orders = [], sell_orders = []\<rparr>
          = np_dot [1, 2] (bananas_weights 2)"
    by (simp add: calculate_bananas_fair_value_def numeral_2_eq_2)
  then have a: "calculate_bananas_fair_value [1, 2] \<lparr>buy_orders = [], sell_orders = []\<rparr>
          = (1 + 2 * exp 1) / (1 + exp 1)"
    by (simp add: w np_dot_def add_divide_distrib)
  have b: "np_dot [1, 2] [1/2, 1/2 :: real] = 3/2"
    by (simp add: np_dot_def)
  have c: "(1 + 2 * exp 1) / (1 + exp 1) \<noteq> (3/2 :: real)"
    using e pos by (simp add: field_simps)
  have d: "calculate_bananas_fair_value [1, 2] \<lparr>buy_orders = [], sell_orders = []\<rparr>
             \<noteq> np_dot [1, 2] [1/2, 1/2]"
    unfolding a b by (rule c)
  have ne2: "bananas_weights 2 \<noteq> [1/2, 1/2]"
    unfolding w using ne by simp
  have l: "length [1, 2 :: real] < 5" by simp
  from l w ne2 d show ?thesis by (intro conjI)
qed

subsection \<open>Level walking\<close>

lemma walk_within_start: "walk_within c l xs \<Longrightarrow> - l \<le> c \<and> c \<le> l"
  by (cases xs) simp_all

lemma walk_within_append:
  "walk_within c l (xs @ ys) =
     (walk_within c l xs \<and> walk_within (c + sum_list (map quantity xs)) l ys)"
proof (induction xs arbitrary: c)
  case Nil
  then show ?case using walk_within_start [of c l ys] by auto
next
  case (Cons x xs)
  from Cons.IH [of "c + quantity x"] show ?case by (simp add: add.assoc)
qed

lemma walk_within_final:
  "walk_within c l xs \<Longrightarrow>
   - l \<le> c + sum_list (map quantity xs) \<and> c + sum_list (map quantity xs) \<le> l"
proof (induction xs arbitrary: c)
  case Nil
  then show ?case by simp
next
  case (Cons x xs)
  then have "walk_within (c + quantity x) l xs" by simp
  from Cons.IH [OF this] show ?case by (simp add: add.assoc)
qed

lemma walk_within_prefixes:
  "walk_within c l xs =
     (\<forall>n \<le> length xs. - l \<le> filled_position c (take n xs) \<and> filled_position c (take n xs) \<le> l)"
proof (induction xs arbitrary: c)
  case Nil
  then show ?case by (simp add: filled_position_def)
next
  case (Cons x xs)
  have "(\<forall>n \<le> length (x # xs). - l \<le> filled_position c (take n (x # xs)) \<and>
            filled_position c (take n (x # xs)) \<le> l) =
        ((- l \<le> c \<and> c \<le> l) \<and>
         (\<forall>m \<le> length xs. - l \<le> filled_position (c + quantity x) (take m xs) \<and>
            filled_position (c + quantity x) (take m xs) \<le> l))"
    (is "?L = (?A \<and> ?B)")
  proof
    assume L: ?L
    from L [rule_format, of 0] have ?A by (simp add: filled_position_def)
    moreover have ?B
    proof (intro allI impI)
      fix m assume "m \<le> length xs"
      with L [rule_format, of "Suc m"]
      show "- l \<le> filled_position (c + quantity x) (take m xs) \<and>
            filled_position (c + quantity x) (take m xs) \<le> l"
        by (simp add: filled_position_def algebra_simps)
    qed
    ultimately show "?A \<and> ?B" ..
  next
    assume AB: "?A \<and> ?B"
    show ?L
    proof (intro allI impI)
      fix n assume n: "n \<le> length (x # xs)"
      show "- l \<le> filled_position c (take n (x # xs)) \<and>
            filled_position c (take n (x # xs)) \<le> l"
      proof (cases n)
        case 0
        with AB show ?thesis by (simp add: filled_position_def)
      next
        case (Suc m)
        with n have "m \<le> length xs" by simp
        with AB Suc show ?thesis by (simp add: filled_position_def algebra_simps)
      qed
    qed
  qed
  with Cons.IH [of "c + quantity x"] show ?case by simp
qed

lemma walked_step:
  assumes "walked c0 l (cur, ords)" "- l \<le> cur + q" "cur + q \<le> l"
  shows "walked c0 l (cur + q, ords @ [Order v p q])"
  using assms walk_within_final [of c0 l ords]
  by (simp add: walked_def walk_within_append)

lemma buy_loop5_walked:
  "walked c0 l (cur, ords) \<Longrightarrow> walked c0 l (buy_loop5 v fp l levels (cur, ords))"
proof (induction levels arbitrary: cur ords)
  case Nil
  then show ?case by simp
next
  case (Cons a levels)
  obtain p q where a: "a = (p, q)" by (cases a)
  from Cons.prems have r: "- l \<le> cur" "cur \<le> l"
    using walk_within_final [of c0 l ords] by (simp_all add: walked_def)
  show ?case
  proof (cases "fp - 15/10 \<le> of_int p \<or> l \<le> cur")
    case True
    with Cons.prems a show ?thesis by simp
  next
    case brk: False
    show ?thesis
    proof (cases "0 < min (l - cur) (- q)")
      case True
      with r have "- l \<le> cur + min (l - cur) (- q)" "cur + min (l - cur) (- q) \<le> l"
        by linarith+
      from Cons.IH [OF walked_step [OF Cons.prems this]] brk True a
      show ?thesis by (simp add: Let_def)
    next
      case False
      with Cons.IH [OF Cons.prems] brk a show ?thesis by (simp add: Let_def)
    qed
  qed
qed

lemma sell_loop5_walked:
  "walked c0 l (cur, ords) \<Longrightarrow> walked c0 l (sell_loop5 v fp l levels (cur, ords))"
proof (induction levels arbitrary: cur ords)
  case Nil
  then show ?case by simp
next
  case (Cons a levels)
  obtain p q where a: "a = (p, q)" by (cases a)
  from Cons.prems have r: "- l \<le> cur" "cur \<le> l"
    using walk_within_final [of c0 l ords] by (simp_all add: walked_def)
  show ?case
  proof (cases "of_int p \<le> fp + 15/10 \<or> cur \<le> - l")
    case True
    with Cons.prems a show ?thesis by simp
  next
    case brk: False
    show ?thesis
    proof (cases "0 < min (l + cur) q")
      case True
      with r have "- l \<le> cur + - min (l + cur) q" "cur + - min (l + cur) q \<le> l"
        by linarith+
      from Cons.IH [OF walked_step [OF Cons.prems this]] brk True a
      show ?thesis by (simp add: Let_def)
    next
      case False
      with Cons.IH [OF Cons.prems] brk a show ?thesis by (simp add: Let_def)
    qed
  qed
qed

lemma buy_loop6_walked:
  "walked c0 l (cur, ords) \<Longrightarrow> walked c0 l (buy_loop6 v fp l levels (cur, ords))"
proof (induction levels arbitrary: cur ords)
  case Nil
  then show ?case by simp
next
  case (Cons a levels)
  obtain p q where a: "a = (p, q)" by (cases a)
  from Cons.prems have r: "- l \<le> cur" "cur \<le> l"
    using walk_within_final [of c0 l ords] by (simp_all add: walked_def)
  show ?case
  proof (cases "l \<le> cur \<or> fp - 15/10 < of_int p")
    case True
    with Cons.prems a show ?thesis by auto
  next
    case brk: False
    show ?thesis
    proof (cases "0 < min (- q) (l - cur)")
      case True
      with r have "- l \<le> cur + min (- q) (l - cur)" "cur + min (- q) (l - cur) \<le> l"
        by linarith+
      from Cons.IH [OF walked_step [OF Cons.prems this]] brk True a
      show ?thesis by (simp add: Let_def)
    next
      case False
      with Cons.IH [OF Cons.prems] brk a show ?thesis by (simp add: Let_def)
    qed
  qed
qed

lemma sell_loop6_walked:
  "walked c0 l (cur, ords) \<Longrightarrow> walked c0 l (sell_loop6 v fp l levels (cur, ords))"
proof (induction levels arbitrary: cur ords)
  case Nil
  then show ?case by simp
next
  case (Cons a levels)
  obtain p q where a: "a = (p, q)" by (cases a)
  from Cons.prems have r: "- l \<le> cur" "cur \<le> l"
    using walk_within_final [of c0 l ords] by (simp_all add: walked_def)
  show ?case
  proof (cases "cur \<le> - l \<or> of_int p < fp + 15/10")
    case True
    with Cons.prems a show ?thesis by auto
  next
    case brk: False
    show ?thesis
    proof (cases "0 < min q (l + cur)")
      case True
      with r have "- l \<le> cur + - min q (l + cur)" "cur + - min q (l + cur) \<le> l"
        by linarith+
      from Cons.IH [OF walked_step [OF Cons.prems this]] brk True a
      show ?thesis by (simp add: Let_def)
    next
      case False
      with Cons.IH [OF Cons.prems] brk a show ?thesis by (simp add: Let_def)
    qed
  qed
qed

lemma voucher_orders5_walk:
  assumes "- l \<le> cur" "cur \<le> l"
  shows "walk_within cur l (voucher_orders5 v fp l cur depth)"
proof -
  from assms have w: "walked cur l (cur, [])" by (simp add: walked_def)
  obtain c1 o1 where b: "buy_loop5 v fp l (ascending (sell_orders depth)) (cur, []) = (c1, o1)"
    by (cases "buy_loop5 v fp l (ascending (sell_orders depth)) (cur, [])")
  from buy_loop5_walked [OF w, of v fp "ascending (sell_orders depth)"] b
  have "walked cur l (c1, o1)" by simp
  from sell_loop5_walked [OF this, of v fp "descending (buy_orders depth)"] b
  show ?thesis by (simp add: voucher_orders5_def walked_def)
qed

lemma voucher_orders6_walk:
  assumes "- l \<le> cur" "cur \<le> l"
  shows "walk_within cur l (voucher_orders6 v fp l cur depth)"
proof -
  from assms have w: "walked cur l (cur, [])" by (simp add: walked_def)
  obtain c1 o1 where b: "buy_loop6 v fp l (ascending (sell_orders depth)) (cur, []) = (c1, o1)"
    by (cases "buy_loop6 v fp l (ascending (sell_orders depth)) (cur, [])")
  from buy_loop6_walked [OF w, of v fp "ascending (sell_orders depth)"] b
  have "walked cur l (c1, o1)" by simp
  from sell_loop6_walked [OF this, of v fp "descending (buy_orders depth)"] b
  show ?thesis by (simp add: voucher_orders6_def walked_def)
qed

lemma process_vouchers5_entries:
  assumes "process_vouchers5 st rm d vs orders = Inr orders'" "orders' v = Some os"
  shows "orders v = Some os \<or>
         (\<exists>fp lmt depth. map_of position_limits5 v = Some lmt \<and>
            os = voucher_orders5 v fp lmt (position_of st v) depth)"
  using assms
proof (induction vs arbitrary: orders)
  case Nil
  then show ?case by simp
next
  case (Cons a vs)
  obtain w k where a: "a = (w, k)" by (cases a)
  show ?case
  proof (cases "map_of (order_depths st) w")
    case None
    with Cons.prems a have "process_vouchers5 st rm d vs orders = Inr orders'" by simp
    from Cons.IH [OF this Cons.prems(2)] show ?thesis .
  next
    case (Some depth)
    with Cons.prems(1) a obtain lmt where l: "map_of position_limits5 w = Some lmt"
      by (cases "map_of position_limits5 w") auto
    let ?po = "voucher_orders5 w (fair_price5 rm k d) lmt (position_of st w) depth"
    let ?o = "if ?po \<noteq> [] then orders(w \<mapsto> ?po) else orders"
    from Cons.prems(1) a Some l have "process_vouchers5 st rm d vs ?o = Inr orders'"
      by (simp add: Let_def)
    from Cons.IH [OF this Cons.prems(2)]
    show ?thesis
    proof
      assume o: "?o v = Some os"
      show ?thesis
      proof (cases "v = w \<and> ?po \<noteq> []")
        case True
        with o have "os = ?po" by simp
        with True l show ?thesis by blast
      next
        case False
        with o have "orders v = Some os" by (auto split: if_splits)
        then show ?thesis ..
      qed
    next
      assume "\<exists>fp lmt depth. map_of position_limits5 v = Some lmt \<and>
            os = voucher_orders5 v fp lmt (position_of st v) depth"
      then show ?thesis ..
    qed
  qed
qed

lemma process_vouchers6_entries:
  assumes "process_vouchers6 st rm d vs orders = Inr orders'" "orders' v = Some os"
  shows "orders v = Some os \<or>
         (\<exists>fp lmt depth. map_of position_limits5 v = Some lmt \<and>
            os = voucher_orders6 v fp lmt (position_of st v) depth)"
  using assms
proof (induction vs arbitrary: orders)
  case Nil
  then show ?case by simp
next
  case (Cons a vs)
  obtain w k where a: "a = (w, k)" by (cases a)
  show ?case
  proof (cases "map_of (order_depths st) w")
    case None
    with Cons.prems a have "process_vouchers6 st rm d vs orders = Inr orders'" by simp
    from Cons.IH [OF this Cons.prems(2)] show ?thesis .
  next
    case (Some depth)
    with Cons.prems(1) a obtain lmt where l: "map_of position_limits5 w = Some lmt"
      by (cases "map_of position_limits5 w") auto
    let ?po = "voucher_orders6 w (fair_price5 rm k d) lmt (position_of st w) depth"
    let ?o = "if ?po \<noteq> [] then orders(w \<mapsto> ?po) else orders"
    from Cons.prems(1) a Some l have "process_vouchers6 st rm d vs ?o = Inr orders'"
      by (simp add: Let_def)
    from Cons.IH [OF this Cons.prems(2)]
    show ?thesis
    proof
      assume o: "?o v = Some os"
      show ?thesis
      proof (cases "v = w \<and> ?po \<noteq> []")
        case True
        with o have "os = ?po" by simp
        with True l show ?thesis by blast
      next
        case False
        with o have "orders v = Some os" by (auto split: if_splits)
        then show ?thesis ..
      qed
    next
      assume "\<exists>fp lmt depth. map_of position_limits5 v = Some lmt \<and>
            os = voucher_orders6 v fp lmt (position_of st v) depth"
      then show ?thesis ..
    qed
  qed
qed

lemma process_vouchers5_returns:
  "\<forall>(w, k) \<in> set vs. map_of position_limits5 w \<noteq> None \<Longrightarrow>
   \<exists>orders'. process_vouchers5 st rm d vs orders = Inr orders'"
proof (induction vs arbitrary: orders)
  case Nil
  then show ?case by simp
next
  case (Cons a vs)
  obtain w k where a: "a = (w, k)" by (cases a)
  with Cons.prems obtain lmt where l: "map_of position_limits5 w = Some lmt" by auto
  from Cons.prems have r: "\<forall>(w, k) \<in> set vs. map_of position_limits5 w \<noteq> None" by simp
  show ?case
    using Cons.IH [OF r] a l by (cases "map_of (order_depths st) w") (simp_all add: Let_def)
qed

lemma process_vouchers6_returns:
  "\<forall>(w, k) \<in> set vs. map_of position_limits5 w \<noteq> None \<Longrightarrow>
   \<exists>orders'. process_vouchers6 st rm d vs orders = Inr orders'"
proof (induction vs arbitrary: orders)
  case Nil
  then show ?case by simp
next
  case (Cons a vs)
  obtain w k where a: "a = (w, k)" by (cases a)
  with Cons.prems obtain lmt where l: "map_of position_limits5 w = Some lmt" by auto
  from Cons.prems have r: "\<forall>(w, k) \<in> set vs. map_of position_limits5 w \<noteq> None" by simp
  show ?case
    using Cons.IH [OF r] a l by (cases "map_of (order_depths st) w") (simp_all add: Let_def)
qed

lemma vouchers_have_limits: "\<forall>(w, k) \<in> set vouchers. map_of position_limits5 w \<noteq> None"
  by (simp add: vouchers_def position_limits5_def)

lemma run5_returns: "\<exists>orders. run5 st = Inr orders"
  using process_vouchers5_returns [OF vouchers_have_limits]
  by (simp add: run5_def split: option.splits)

lemma run6_returns: "\<exists>orders. run6 st = Inr orders"
  using process_vouchers6_returns [OF vouchers_have_limits]
  by (simp add: run6_def split: option.splits)

lemma run5_entries:
  assumes "run5 st = Inr orders" "orders v = Some os"
  shows "\<exists>fp lmt depth. map_of position_limits5 v = Some lmt \<and>
            os = voucher_orders5 v fp lmt (position_of st v) depth"
proof (cases "rock_mid_price5 st")
  case None
  with assms(1) have "orders = Map.empty" by (simp add: run5_def)
  with assms(2) show ?thesis by simp
next
  case (Some rm)
  with assms(1)
  have "process_vouchers5 st rm (decay_factor5 (timestamp st)) vouchers Map.empty = Inr orders"
    by (simp add: run5_def)
  from process_vouchers5_entries [OF this assms(2)] show ?thesis by simp
qed

lemma run6_entries:
  assumes "run6 st = Inr orders" "orders v = Some os"
  shows "\<exists>fp lmt depth. map_of position_limits5 v = Some lmt \<and>
            os = voucher_orders6 v fp lmt (position_of st v) depth"
proof (cases "rock_mid_price5 st")
  case None
  with assms(1) have "orders = Map.empty" by (simp add: run6_def)
  with assms(2) show ?thesis by simp
next
  case (Some rm)
  show ?thesis
  proof (cases "rm = 0")
    case True
    with Some assms(1) have "orders = Map.empty" by (simp add: run6_def)
    with assms(2) show ?thesis by simp
  next
    case False
    with Some assms(1) have
      "process_vouchers6 st rm (decay_factor5 (timestamp st)) vouchers Map.empty = Inr orders"
      by (simp add: run6_def)
    from process_vouchers6_entries [OF this assms(2)] show ?thesis by simp
  qed
qed

text \<open>
  C10. A voucher whose position starts within its limit stays within it along the
  orders that the level-walking loops of run5.py and Run6.py emit for it: after every
  prefix of the list has filled in full, and so after the whole list. Both \<open>run\<close>
  functions return, and every list they return for a voucher is such a walk.
\<close>

theorem level_walking_within_limit:
  assumes "- lmt \<le> cur" "cur \<le> lmt"
  shows "(\<forall>n \<le> length (voucher_orders5 v fp lmt cur depth).
            - lmt \<le> filled_position cur (take n (voucher_orders5 v fp lmt cur depth)) \<and>
            filled_position cur (take n (voucher_orders5 v fp lmt cur depth)) \<le> lmt) \<and>
         (\<forall>n \<le> length (voucher_orders6 v fp lmt cur depth).
            - lmt \<le> filled_position cur (take n (voucher_orders6 v fp lmt cur depth)) \<and>
            filled_position cur (take n (voucher_orders6 v fp lmt cur depth)) \<le> lmt) \<and>
         (\<exists>orders. run5 st = Inr orders) \<and> (\<exists>orders. run6 st = Inr orders) \<and>
         (\<forall>orders os. (run5 st = Inr orders \<or> run6 st = Inr orders) \<and> orders v = Some os \<and>
            map_of position_limits5 v = Some lmt \<and> position_of st v = cur \<longrightarrow>
            (\<forall>n \<le> length os. - lmt \<le> filled_position cur (take n os) \<and>
               filled_position cur (take n os) \<le> lmt))"
proof (intro conjI allI impI)
  fix n assume "n \<le> length (voucher_orders5 v fp lmt cur depth)"
  with voucher_orders5_walk [OF assms, of v fp depth]
  show "- lmt \<le> filled_position cur (take n (voucher_orders5 v fp lmt cur depth))"
    and "filled_position cur (take n (voucher_orders5 v fp lmt cur depth)) \<le> lmt"
    by (simp_all add: walk_within_prefixes)
next
  fix n assume "n \<le> length (voucher_orders6 v fp lmt cur depth)"
  with voucher_orders6_walk [OF assms, of v fp depth]
  show "- lmt \<le> filled_position cur (take n (voucher_orders6 v fp lmt cur depth))"
    and "filled_position cur (take n (voucher_orders6 v fp lmt cur depth)) \<le> lmt"
    by (simp_all add: walk_within_prefixes)
next
  show "\<exists>orders. run5 st = Inr orders" by (rule run5_returns)
  show "\<exists>orders. run6 st = Inr orders" by (rule run6_returns)
next
  fix orders os n
  assume a: "(run5 st = Inr orders \<or> run6 st = Inr orders) \<and> orders v = Some os \<and>
            map_of position_limits5 v = Some lmt \<and> position_of st v = cur"
    and n: "n \<le> length os"
  from a have ov: "orders v = Some os" and ml: "map_of position_limits5 v = Some lmt"
    and pc: "position_of st v = cur"
    by simp_all
  have "walk_within cur lmt os"
  proof -
    from a consider "run5 st = Inr orders" | "run6 st = Inr orders" by blast
    then show ?thesis
    proof cases
      case 1
      from run5_entries [OF 1 ov] obtain fp' l' depth' where
        "map_of position_limits5 v = Some l'"
        "os = voucher_orders5 v fp' l' (position_of st v) depth'"
        by blast
      with ml pc have "os = voucher_orders5 v fp' lmt cur depth'" by simp
      with voucher_orders5_walk [OF assms] show ?thesis by simp
    next
      case 2
      from run6_entries [OF 2 ov] obtain fp' l' depth' where
        "map_of position_limits5 v = Some l'"
        "os = voucher_orders6 v fp' l' (position_of st v) depth'"
        by blast
      with ml pc have "os = voucher_orders6 v fp' lmt cur depth'" by simp
      with voucher_orders6_walk [OF assms] show ?thesis by simp
    qed
  qed
  with n show "- lmt \<le> filled_position cur (take n os)"
    and "filled_position cur (take n os) \<le> lmt"
    by (simp_all add: walk_within_prefixes)
qed

theorem level_walking_within_limit_witness:
  "(- 200 :: int) \<le> 0 \<and> (0::int) \<le> 200 \<and>
   run5 \<lparr>timestamp = 0,
         order_depths =
           [(''VOLCANIC_ROCK'', \<lparr>buy_orders = [(10499, 5)], sell_orders = [(10501, -5)]\<rparr>),
            (''VOLCANIC_ROCK_VOUCHER_10000'',
             \<lparr>buy_orders = [(490, 10)], sell_orders = [(496, -100), (495, -150)]\<rparr>)],
         position = Map.empty\<rparr>
     = Inr [''VOLCANIC_ROCK_VOUCHER_10000'' \<mapsto>
              [Order ''VOLCANIC_ROCK_VOUCHER_10000'' 495 150,
               Order ''VOLCANIC_ROCK_VOUCHER_10000'' 496 50]] \<and>
   filled_position 0 (take 1 [Order ''VOLCANIC_ROCK_VOUCHER_10000'' 495 150,
                               Order ''VOLCANIC_ROCK_VOUCHER_10000'' 496 50]) = 150 \<and>
   filled_position 0 (take 2 [Order ''VOLCANIC_ROCK_VOUCHER_10000'' 495 150,
                               Order ''VOLCANIC_ROCK_VOUCHER_10000'' 496 50]) \<le> 200"
proof -
  let ?v = "''VOLCANIC_ROCK_VOUCHER_10000''"
  let ?st = "\<lparr>timestamp = 0,
         order_depths =
           [(''VOLCANIC_ROCK'', \<lparr>buy_orders = [(10499, 5)], sell_orders = [(10501, -5)]\<rparr>),
            (?v, \<lparr>buy_orders = [(490, 10)], sell_orders = [(496, -100), (495, -150)]\<rparr>)],
         position = Map.empty\<rparr>"
  let ?os = "[Order ?v 495 150, Order ?v 496 50]"
  have h: "(- 200 :: int) \<le> 0" "(0::int) \<le> 200" by simp_all
  have d: "decay_factor5 0 = 1"
    by (simp add: decay_factor5_def time_to_expiry5_def)
  have r: "run5 ?st = Inr [?v \<mapsto> ?os]"
    by (simp add: run5_def rock_mid_price5_def max_key_def min_key_def d vouchers_def
        position_limits5_def position_of_def fair_price5_def voucher_orders5_def
        ascending_def descending_def)
  have l: "map_of position_limits5 ?v = Some 200" "position_of ?st ?v = 0"
    by (simp_all add: position_limits5_def position_of_def)
  from level_walking_within_limit [OF h, of ?v _ _ ?st] r l
  have "\<forall>n \<le> length ?os. - 200 \<le> filled_position 0 (take n ?os) \<and>
          filled_position 0 (take n ?os) \<le> 200"
    by (metis fun_upd_same)
  from this [rule_format, of 2] have "filled_position 0 (take 2 ?os) \<le> 200" by simp
  moreover have "filled_position 0 (take 1 ?os) = 150" by (simp add: filled_position_def)
  ultimately show ?thesis using h r by simp
qed

subsection \<open>Voucher fair values\<close>

lemma py_int_mono: "x \<le> y \<Longrightarrow> py_int x \<le> py_int y"
proof -
  assume xy: "x \<le> y"
  consider "0 \<le> x" | "y < 0" | "x < 0" "0 \<le> y" by linarith
  then show ?thesis
  proof cases
    case 1
    with xy show ?thesis by (simp add: py_int_def floor_mono)
  next
    case 2
    with xy show ?thesis by (simp add: py_int_def ceiling_mono)
  next
    case 3
    then have c: "\<lceil>x\<rceil> \<le> 0" and f: "0 \<le> \<lfloor>y\<rfloor>" by (simp_all add: ceiling_le_zero)
    from 3 have e: "py_int x = \<lceil>x\<rceil>" "py_int y = \<lfloor>y\<rfloor>" by (simp_all add: py_int_def)
    show ?thesis unfolding e by (rule order_trans [OF c f])
  qed
qed

lemma linear_floor_decay_mono: "t1 \<le> t2 \<Longrightarrow> linear_floor_decay t1 \<le> linear_floor_decay t2"
  by (auto simp: linear_floor_decay_def max_def)

lemma exponential_decay_mono: "t1 \<le> t2 \<Longrightarrow> exponential_decay t1 \<le> exponential_decay t2"
  by (simp add: exponential_decay_def)

lemma power_decay_mono: "0 \<le> t1 \<Longrightarrow> t1 \<le> t2 \<Longrightarrow> power_decay t1 \<le> power_decay t2"
  unfolding power_decay_def by (rule powr_mono2) simp_all

lemma time_left_antimono:
  assumes "ts1 \<le> ts2"
  shows "time_left3 ts2 \<le> time_left3 ts1" "time_to_expiry5 ts2 \<le> time_to_expiry5 ts1"
    "days_left7 ts2 \<le> days_left7 ts1"
proof -
  from assms have "(of_int ts1 :: real) / 100000 \<le> of_int ts2 / 100000"
    by (simp add: divide_right_mono)
  then have p: "py_int (of_int ts1 / 100000) \<le> py_int (of_int ts2 / 100000)"
    by (rule py_int_mono)
  from p show "time_left3 ts2 \<le> time_left3 ts1" by (simp add: time_left3_def)
  from p show "days_left7 ts2 \<le> days_left7 ts1" by (simp add: days_left7_def)
  from assms show "time_to_expiry5 ts2 \<le> time_to_expiry5 ts1"
    by (simp add: time_to_expiry5_def max_def)
qed

text \<open>
  C6 (as amended). The fair value of a voucher is the intrinsic value
  \<open>max 0 (mid - strike)\<close> times a decay factor in run3.py, run5.py and Run6.py, and
  that product plus a premium of 5 in Run7.py. The remaining time falls as the
  timestamp grows, and each decay factor grows with the remaining time: it is
  non-decreasing in the remaining time, non-increasing in the elapsed time.
\<close>

theorem voucher_fair_value_decay:
  "voucher_fair_value3 rp k tleft = max 0 (rp - of_int k) * linear_floor_decay (of_int tleft) \<and>
   fair_price5 rm k (decay_factor5 ts) =
     max 0 (rm - of_int k) * exponential_decay (time_to_expiry5 ts) \<and>
   calculate_fair_value spot k tte = max 0 (spot - of_int k) * power_decay (of_int tte) + 5 \<and>
   (t1 \<le> t2 \<longrightarrow> linear_floor_decay t1 \<le> linear_floor_decay t2 \<and>
      exponential_decay t1 \<le> exponential_decay t2) \<and>
   (0 \<le> t1 \<and> t1 \<le> t2 \<longrightarrow> power_decay t1 \<le> power_decay t2) \<and>
   (ts1 \<le> ts2 \<longrightarrow> time_left3 ts2 \<le> time_left3 ts1 \<and>
      time_to_expiry5 ts2 \<le> time_to_expiry5 ts1 \<and> days_left7 ts2 \<le> days_left7 ts1)"
proof (intro conjI impI)
  show "voucher_fair_value3 rp k tleft = max 0 (rp - of_int k) * linear_floor_decay (of_int tleft)"
    by (simp add: voucher_fair_value3_def linear_floor_decay_def Let_def)
  show "fair_price5 rm k (decay_factor5 ts) =
          max 0 (rm - of_int k) * exponential_decay (time_to_expiry5 ts)"
    by (simp add: fair_price5_def decay_factor5_def exponential_decay_def Let_def)
  show "calculate_fair_value spot k tte = max 0 (spot - of_int k) * power_decay (of_int tte) + 5"
    by (simp add: calculate_fair_value_def power_decay_def Let_def)
next
  assume "t1 \<le> t2"
  then show "linear_floor_decay t1 \<le> linear_floor_decay t2"
    and "exponential_decay t1 \<le> exponential_decay t2"
    by (rule linear_floor_decay_mono, rule exponential_decay_mono)
next
  assume "0 \<le> t1 \<and> t1 \<le> t2"
  then show "power_decay t1 \<le> power_decay t2" by (simp add: power_decay_mono)
next
  assume "ts1 \<le> ts2"
  then show "time_left3 ts2 \<le> time_left3 ts1" "time_to_expiry5 ts2 \<le> time_to_expiry5 ts1"
    "days_left7 ts2 \<le> days_left7 ts1"
    by (rule time_left_antimono)+
qed

theorem voucher_fair_value_decay_witness:
  "(0::int) \<le> 300000 \<and> time_left3 0 = 7 \<and> time_left3 300000 = 4 \<and>
   linear_floor_decay 4 \<le> linear_floor_decay 7 \<and>
   voucher_fair_value3 10500 10000 4 = 500 * (4/7)"
proof -
  have t: "time_left3 0 = 7" "time_left3 300000 = 4"
    by (simp_all add: time_left3_def py_int_def)
  note v = voucher_fair_value_decay [where rp = 10500 and k = 10000 and tleft = 4 and
      ?t1.0 = 4 and ?t2.0 = 7 and ?ts1.0 = 0 and ?ts2.0 = 300000]
  from v have "voucher_fair_value3 10500 10000 4 = max 0 (10500 - of_int 10000) * linear_floor_decay (of_int 4)"
    by (rule conjunct1)
  then have a: "voucher_fair_value3 10500 10000 4 = 500 * (4/7)"
    by (simp add: linear_floor_decay_def)
  from v have "linear_floor_decay 4 \<le> linear_floor_decay 7" by simp
  with t a show ?thesis by simp
qed

text \<open>
  C6 as stated fails twice. In Run7.py a premium is added to the product: at the money
  with all seven periods left the product is 0 and the fair value is 5. And the decay
  factor is not non-increasing in the remaining time: with one period left the factor
  of run3.py is 0.2, with seven it is 1.
\<close>

theorem voucher_fair_value_counterexample:
  "calculate_fair_value 10000 10000 7 = 5 \<and>
   max 0 (10000 - of_int 10000) * power_decay (of_int 7) = 0 \<and>
   (1::real) \<le> 7 \<and> linear_floor_decay 1 = 2/10 \<and> linear_floor_decay 7 = 1 \<and>
   \<not> linear_floor_decay 7 \<le> linear_floor_decay 1"
  by (simp add: calculate_fair_value_def linear_floor_decay_def)

end
